theory Spec2Isabelle
  imports Complex_Main "HOL-Library.Sublist"
begin

section \<open>Data model\<close>

text \<open>
  An article as the aggregation engine of \<^verbatim>\<open>src/context/NewsContext.jsx\<close> reads it.
  Optional JavaScript fields are options: \<open>None\<close> is an absent (\<^verbatim>\<open>undefined\<close>) field.
  Scores are finite numbers (the difference of two finite doubles has the sign of the
  difference of the reals), and the elements of a fetched array are article objects.  The
  field \<^verbatim>\<open>section\<close> is called \<open>section_tag\<close> here because \<^verbatim>\<open>section\<close> is
  reserved in theory text.
\<close>

record article =
  title :: string
  link :: string
  section_tag :: "string option"
  impactScore :: "real option"
  breakingScore :: "real option"
  isBreaking :: bool

text \<open>
  The published state held by \<^verbatim>\<open>NewsProvider\<close> (its \<^verbatim>\<open>useState\<close> cells).  A recorded
  error is the \<^verbatim>\<open>message\<close> of the rejection, which may be \<^verbatim>\<open>undefined\<close> (\<open>None\<close>).
\<close>

record snapshot =
  newsData :: "string \<rightharpoonup> article list"
  breakingNews :: "article list"
  loading :: bool
  errors :: "string \<rightharpoonup> string option"
  lastFetch :: nat
  settingsHash :: string

definition initial_snapshot :: snapshot where
  "initial_snapshot =
     \<lparr>newsData = Map.empty, breakingNews = [], loading = True,
      errors = Map.empty, lastFetch = 0, settingsHash = []\<rparr>"

section \<open>JavaScript primitives used by the engine\<close>

text \<open>\<^verbatim>\<open>x || 0\<close> on an optional number: an absent value and \<^verbatim>\<open>0\<close> both give \<^verbatim>\<open>0\<close>.\<close>

definition or0 :: "real option \<Rightarrow> real" where
  "or0 v = (case v of None \<Rightarrow> 0 | Some x \<Rightarrow> x)"

text \<open>
  \<^verbatim>\<open>Array.prototype.sort(cmp)\<close>: a stable sort; \<open>x\<close> stays in front of \<open>y\<close> unless
  \<^verbatim>\<open>cmp(x, y) > 0\<close>.  Written as the insertion sort that keeps earlier elements first.
\<close>

fun insert_by :: "('a \<Rightarrow> 'a \<Rightarrow> real) \<Rightarrow> 'a \<Rightarrow> 'a list \<Rightarrow> 'a list" where
  "insert_by cmp x [] = [x]"
| "insert_by cmp x (y # ys) =
     (if cmp x y \<le> 0 then x # y # ys else y # insert_by cmp x ys)"

definition array_sort :: "('a \<Rightarrow> 'a \<Rightarrow> real) \<Rightarrow> 'a list \<Rightarrow> 'a list" where
  "array_sort cmp xs = foldr (insert_by cmp) xs []"

text \<open>
  A plain object (\<^verbatim>\<open>{}\<close>) with string keys: its own properties in the order of their
  creation.
\<close>

type_synonym 'v obj = "(string \<times> 'v) list"

text \<open>
  An array index is the canonical decimal string of a number below \<open>2^32 - 1\<close>.  The own
  properties of an object are enumerated (\<^verbatim>\<open>Object.keys\<close>, \<^verbatim>\<open>Object.values\<close>,
  \<^verbatim>\<open>Object.assign\<close>, spread) with the array indices first, in ascending numeric order,
  then the other keys in the order of their creation.
\<close>

definition digit_value :: "char \<Rightarrow> nat" where
  "digit_value c = length (takeWhile (\<lambda>d. d \<noteq> c) ''0123456789'')"

definition numeric_value :: "string \<Rightarrow> nat" where
  "numeric_value s = foldl (\<lambda>n c. 10 * n + digit_value c) 0 s"

definition is_array_index :: "string \<Rightarrow> bool" where
  "is_array_index s =
     (s \<noteq> [] \<and> list_all (\<lambda>c. c \<in> set ''0123456789'') s
      \<and> (s = ''0'' \<or> hd s \<noteq> CHR ''0'') \<and> numeric_value s < 4294967295)"

definition own_entries :: "'v obj \<Rightarrow> 'v obj" where
  "own_entries ob =
     sort_key (\<lambda>(k, v). numeric_value k) (filter (\<lambda>(k, v). is_array_index k) ob)
     @ filter (\<lambda>(k, v). \<not> is_array_index k) ob"

text \<open>
  \<^verbatim>\<open>obj[k] = v\<close> overwrites the value of an own property in place and creates a new
  property at the end.  An assignment to \<^verbatim>\<open>__proto__\<close> runs the setter of
  \<^verbatim>\<open>Object.prototype\<close> and creates no property.
\<close>

definition obj_set :: "'v obj \<Rightarrow> string \<Rightarrow> 'v \<Rightarrow> 'v obj" where
  "obj_set ob k v =
     (if k = ''__proto__'' then ob
      else if k \<in> set (map fst ob)
      then map (\<lambda>(k', v'). if k' = k then (k', v) else (k', v')) ob
      else ob @ [(k, v)])"

text \<open>\<^verbatim>\<open>Object.assign(target, src)\<close>: every own entry of \<open>src\<close>, in order, is set on \<open>target\<close>.\<close>

definition object_assign :: "'v obj \<Rightarrow> 'v obj \<Rightarrow> 'v obj" where
  "object_assign target src = foldl (\<lambda>t (k, v). obj_set t k v) target (own_entries src)"

text \<open>\<^verbatim>\<open>Object.values(o).flat()\<close> on an object whose values are arrays.\<close>

definition values_flat :: "'a list obj \<Rightarrow> 'a list" where
  "values_flat ob = concat (map snd (own_entries ob))"

text \<open>
  The property names that a plain object inherits from \<^verbatim>\<open>Object.prototype\<close>: a read of
  one of them on an object that has no own property of that name gives a function (or, for
  \<^verbatim>\<open>__proto__\<close>, the prototype), a truthy value that has no \<^verbatim>\<open>push\<close>.
\<close>

definition inherited :: "string list" where
  "inherited =
     [''constructor'', ''hasOwnProperty'', ''isPrototypeOf'', ''propertyIsEnumerable'',
      ''toLocaleString'', ''toString'', ''valueOf'', ''__proto__'',
      ''__defineGetter__'', ''__defineSetter__'', ''__lookupGetter__'', ''__lookupSetter__'']"

datatype js_error = TypeError

section \<open>Redistribution pass and publish of one wave\<close>

text \<open>\<^verbatim>\<open>item.section || 'uncategorized'\<close>: an absent or empty section is falsy.\<close>

definition classify :: "article \<Rightarrow> string" where
  "classify item =
     (case section_tag item of
        None \<Rightarrow> ''uncategorized''
      | Some s \<Rightarrow> if s = [] then ''uncategorized'' else s)"

text \<open>\<^verbatim>\<open>(a, b) => (b.impactScore || 0) - (a.impactScore || 0)\<close>\<close>

definition impact_cmp :: "article \<Rightarrow> article \<Rightarrow> real" where
  "impact_cmp a b = or0 (impactScore b) - or0 (impactScore a)"

text \<open>\<^verbatim>\<open>(a, b) => (b.breakingScore || 0) - (a.breakingScore || 0)\<close>\<close>

definition breaking_cmp :: "article \<Rightarrow> article \<Rightarrow> real" where
  "breaking_cmp a b = or0 (breakingScore b) - or0 (breakingScore a)"

text \<open>
  \<^verbatim>\<open>if (!redistributed[section]) redistributed[section] = []; redistributed[section].push(item)\<close>.
  The map holds the own properties of \<^verbatim>\<open>redistributed\<close>.  For a section that is not an
  own property and names an inherited one, the read is truthy, no bucket is opened and
  \<^verbatim>\<open>push\<close> is not a function: a \<^verbatim>\<open>TypeError\<close>.
\<close>

definition push_item ::
  "(string \<rightharpoonup> article list) \<Rightarrow> article \<Rightarrow> js_error + (string \<rightharpoonup> article list)" where
  "push_item redistributed item =
     (let section = classify item
      in case redistributed section of
           Some bucket \<Rightarrow> Inr (redistributed(section \<mapsto> bucket @ [item]))
         | None \<Rightarrow>
             if section \<in> set inherited then Inl TypeError
             else Inr (redistributed(section \<mapsto> [item])))"

text \<open>\<^verbatim>\<open>allFetched.forEach(item => ...)\<close>: a throw ends the loop.\<close>

fun push_all ::
  "(string \<rightharpoonup> article list) \<Rightarrow> article list \<Rightarrow> js_error + (string \<rightharpoonup> article list)" where
  "push_all redistributed [] = Inr redistributed"
| "push_all redistributed (item # items) =
     (case push_item redistributed item of
        Inl e \<Rightarrow> Inl e
      | Inr r \<Rightarrow> push_all r items)"

text \<open>
  The redistribution pass over the accumulated results: an empty bucket for every fetched
  key, every fetched article pushed to the bucket of its own section, every bucket sorted.
\<close>

definition redistribute :: "article list obj \<Rightarrow> js_error + (string \<rightharpoonup> article list)" where
  "redistribute allCollectedResults =
     (let allFetched = values_flat allCollectedResults;
          cleared = foldl (\<lambda>r key. r(key \<mapsto> [])) Map.empty
                      (map fst (own_entries allCollectedResults))
      in case push_all cleared allFetched of
           Inl e \<Rightarrow> Inl e
         | Inr filled \<Rightarrow> Inr (\<lambda>key. map_option (array_sort impact_cmp) (filled key)))"

text \<open>
  \<^verbatim>\<open>item.isBreaking || (item.breakingScore && item.breakingScore > 1.5)\<close>: an absent or
  zero score is falsy.
\<close>

definition breaking_filter :: "article \<Rightarrow> bool" where
  "breaking_filter item =
     (isBreaking item \<or>
      (case breakingScore item of None \<Rightarrow> False | Some b \<Rightarrow> b \<noteq> 0 \<and> b > 1.5))"

definition breaking_of :: "article list \<Rightarrow> article list" where
  "breaking_of allFetched = take 3 (array_sort breaking_cmp (filter breaking_filter allFetched))"

text \<open>
  The end of a wave: the redistribution pass, then the three state updates
  \<^verbatim>\<open>setNewsData(prev => ({...prev, ...redistributed}))\<close>,
  \<^verbatim>\<open>setErrors(prev => ({...prev, ...batchErrors}))\<close>, \<^verbatim>\<open>setBreakingNews(breaking)\<close>.
  When the pass throws, no state is updated.
\<close>

definition publish ::
  "article list obj \<Rightarrow> string option obj \<Rightarrow> snapshot \<Rightarrow> js_error + snapshot" where
  "publish allCollectedResults batchErrors prev =
     (case redistribute allCollectedResults of
        Inl e \<Rightarrow> Inl e
      | Inr redistributed \<Rightarrow>
          Inr (prev\<lparr>newsData := newsData prev ++ redistributed,
                    errors := foldl (\<lambda>e (k, message). e(k \<mapsto> message)) (errors prev)
                                (own_entries batchErrors),
                    breakingNews := breaking_of (values_flat allCollectedResults)\<rparr>))"

text \<open>
  The snapshots a consumer can observe: the initial state, then any sequence of wave
  publishes and of updates of the loading flag, the completion time and the settings hash.
  Publishes of overlapping refresh cycles interleave at this granularity.
\<close>

inductive observable :: "snapshot \<Rightarrow> bool" where
  obs_init: "observable initial_snapshot"
| obs_publish: "observable s \<Longrightarrow> publish acc errs s = Inr s' \<Longrightarrow> observable s'"
| obs_loading: "observable s \<Longrightarrow> observable (s\<lparr>loading := b\<rparr>)"
| obs_lastFetch: "observable s \<Longrightarrow> observable (s\<lparr>lastFetch := t\<rparr>)"
| obs_settingsHash: "observable s \<Longrightarrow> observable (s\<lparr>settingsHash := h\<rparr>)"

section \<open>Configuration and source adapters\<close>

text \<open>
  The configuration read by \<^verbatim>\<open>getSettings()\<close>, with the fields this code reads and one
  field (\<open>uiMode\<close>) that it does not.  \<^verbatim>\<open>newsSources\<close> keeps its key order, which
  \<^verbatim>\<open>JSON.stringify\<close> follows.
\<close>

record section_cfg =
  enabled :: bool
  count :: "int option"

record settings =
  sections :: "string \<rightharpoonup> section_cfg"
  newsSources :: "bool obj"
  freshnessLimitHours :: int
  enableCache :: bool
  enableProximityScoring :: "bool option"
  uiMode :: string

text \<open>\<^verbatim>\<open>settings.sections[key]?.enabled\<close>\<close>

definition section_enabled :: "settings \<Rightarrow> string \<Rightarrow> bool" where
  "section_enabled cfg key = (case sections cfg key of None \<Rightarrow> False | Some sc \<Rightarrow> enabled sc)"

text \<open>\<^verbatim>\<open>settings.sections[key]?.count || 10\<close>: an absent count and the count 0 are falsy.\<close>

definition count_or_10 :: "settings \<Rightarrow> string \<Rightarrow> int" where
  "count_or_10 cfg key =
     (case sections cfg key of
        None \<Rightarrow> 10
      | Some sc \<Rightarrow> (case count sc of None \<Rightarrow> 10 | Some n \<Rightarrow> if n = 0 then 10 else n))"

text \<open>
  What one call of \<^verbatim>\<open>fetchSectionNews\<close> settles to.  A returned value is an array of
  articles or something that is not an array.  A rejection carries any value: \<^verbatim>\<open>null\<close> or
  \<^verbatim>\<open>undefined\<close> (\<open>Nullish\<close>), or a value whose property \<^verbatim>\<open>message\<close> reads as a string
  or as \<^verbatim>\<open>undefined\<close> (\<open>Thrown\<close>).
\<close>

datatype fetched = Articles "article list" | NotAnArray

datatype rejection = Nullish | Thrown "string option"

type_synonym outcome = "rejection + fetched"

text \<open>
  The source adapter is outside this code: a function of the call's arguments and of the
  state \<open>'w\<close> of the outside world, giving the outcome of the call and the tick at which it
  settles: every call settles.  Fetches of one batch settle in the order of their ticks
  (first issued first among equal ticks).
\<close>

type_synonym 'w adapter = "string \<Rightarrow> int \<Rightarrow> bool obj \<Rightarrow> 'w \<Rightarrow> (outcome \<times> nat) \<times> 'w"

record pending =
  p_key :: string
  p_count :: int
  p_sources :: "bool obj"
  p_outcome :: outcome
  p_tick :: nat

datatype event =
    Issued string int "bool obj"
  | Settled string outcome
  | Published

section \<open>The refresh cycle\<close>

text \<open>
  The synchronous part of \<^verbatim>\<open>batch.map(async (key) => ...)\<close>: for every enabled key of the
  batch, in order, \<^verbatim>\<open>fetchSectionNews(key, count + 5, settings.newsSources)\<close> is called.
\<close>

fun issue :: "settings \<Rightarrow> 'w adapter \<Rightarrow> string list \<Rightarrow> 'w \<Rightarrow> pending list \<times> 'w" where
  "issue cfg fetchSectionNews [] w = ([], w)"
| "issue cfg fetchSectionNews (key # rest) w =
     (if section_enabled cfg key then
        (let cnt = count_or_10 cfg key;
             ((out, tick), w1) = fetchSectionNews key (cnt + 5) (newsSources cfg) w;
             (ps, w2) = issue cfg fetchSectionNews rest w1
         in (\<lparr>p_key = key, p_count = cnt + 5, p_sources = newsSources cfg,
               p_outcome = out, p_tick = tick\<rparr> # ps, w2))
      else issue cfg fetchSectionNews rest w)"

text \<open>
  The continuation of one callback after its \<^verbatim>\<open>await\<close>.  The \<^verbatim>\<open>try\<close> branch stores the
  articles (or \<^verbatim>\<open>[]\<close> for a value that is not an array).  The \<^verbatim>\<open>catch\<close> branch reads
  \<^verbatim>\<open>err.message\<close>, records it and stores \<^verbatim>\<open>[]\<close>; on \<^verbatim>\<open>null\<close> or \<^verbatim>\<open>undefined\<close> the read
  throws a \<^verbatim>\<open>TypeError\<close> inside the \<^verbatim>\<open>catch\<close>, and the callback's promise rejects.
\<close>

definition settle ::
  "article list obj \<times> string option obj \<Rightarrow> pending
     \<Rightarrow> js_error + (article list obj \<times> string option obj)" where
  "settle st p =
     (case st of (batchResults, batchErrors) \<Rightarrow>
        (case p_outcome p of
           Inr (Articles articles) \<Rightarrow> Inr (obj_set batchResults (p_key p) articles, batchErrors)
         | Inr NotAnArray \<Rightarrow> Inr (obj_set batchResults (p_key p) [], batchErrors)
         | Inl Nullish \<Rightarrow> Inl TypeError
         | Inl (Thrown message) \<Rightarrow>
             Inr (obj_set batchResults (p_key p) [], obj_set batchErrors (p_key p) message)))"

text \<open>
  \<^verbatim>\<open>await Promise.all(...)\<close>: the continuations run in the order of settlement; the first
  rejected callback rejects the whole and the \<^verbatim>\<open>await\<close> throws.
\<close>

fun settle_all ::
  "article list obj \<times> string option obj \<Rightarrow> pending list
     \<Rightarrow> js_error + (article list obj \<times> string option obj)" where
  "settle_all st [] = Inr st"
| "settle_all st (p # ps) =
     (case settle st p of
        Inl e \<Rightarrow> Inl e
      | Inr st' \<Rightarrow> settle_all st' ps)"

definition settle_order :: "pending list \<Rightarrow> pending list" where
  "settle_order ps = sort_key p_tick ps"

text \<open>The settlements that a cycle sees: up to the one whose continuation throws.\<close>

fun until_throw :: "pending list \<Rightarrow> pending list" where
  "until_throw [] = []"
| "until_throw (p # ps) = (if p_outcome p = Inl Nullish then [p] else p # until_throw ps)"

text \<open>
  The running state of one refresh cycle, with the trace of what it did and the error, if
  any, that left the loop over the batches.
\<close>

record 'w cycle =
  world :: 'w
  allCollectedResults :: "article list obj"
  published :: snapshot
  trace :: "event list"
  failure :: "js_error option"

text \<open>
  One iteration of \<^verbatim>\<open>for (const batch of batches)\<close>: all fetches of the batch are issued,
  \<^verbatim>\<open>await Promise.all\<close> resumes when all have settled or throws, then the batch results
  are assigned into the accumulated results and the wave is published, unless the
  redistribution pass throws.
\<close>

definition run_batch :: "settings \<Rightarrow> 'w adapter \<Rightarrow> 'w cycle \<Rightarrow> string list \<Rightarrow> 'w cycle" where
  "run_batch cfg fetchSectionNews c batch =
     (let (ps, w1) = issue cfg fetchSectionNews batch (world c);
          settled = settle_order ps;
          events = trace c
            @ map (\<lambda>p. Issued (p_key p) (p_count p) (p_sources p)) ps
            @ map (\<lambda>p. Settled (p_key p) (p_outcome p)) (until_throw settled)
      in case settle_all ([], []) settled of
           Inl e \<Rightarrow> c\<lparr>world := w1, trace := events, failure := Some e\<rparr>
         | Inr (batchResults, batchErrors) \<Rightarrow>
             (let acc = object_assign (allCollectedResults c) batchResults
              in case publish acc batchErrors (published c) of
                   Inl e \<Rightarrow>
                     c\<lparr>world := w1, allCollectedResults := acc, trace := events,
                       failure := Some e\<rparr>
                 | Inr s \<Rightarrow>
                     c\<lparr>world := w1, allCollectedResults := acc, published := s,
                       trace := events @ [Published], failure := None\<rparr>))"

definition allSections :: "string list" where
  "allSections = [''world'', ''india'', ''chennai'', ''trichy'', ''local'', ''social'',
                  ''entertainment'', ''business'', ''technology'']"

definition mainPage :: "string list" where
  "mainPage = [''world'', ''india'', ''chennai'', ''trichy'']"

text \<open>\<^verbatim>\<open>specificSections || allSections\<close>: an empty array is truthy and stays.\<close>

definition resolved :: "string list option \<Rightarrow> string list" where
  "resolved specificSections =
     (case specificSections of None \<Rightarrow> allSections | Some ss \<Rightarrow> ss)"

text \<open>\<^verbatim>\<open>[highPriority, lowPriority].filter(b => b.length > 0)\<close>\<close>

definition batches_of :: "string list \<Rightarrow> string list list" where
  "batches_of sectionsToFetch =
     (let highPriority = filter (\<lambda>s. s \<in> set mainPage) sectionsToFetch;
          lowPriority = filter (\<lambda>s. s \<notin> set mainPage) sectionsToFetch
      in filter (\<lambda>b. length b > 0) [highPriority, lowPriority])"

text \<open>The loop over the batches: a throw in one wave leaves the loop.\<close>

fun run_batches :: "settings \<Rightarrow> 'w adapter \<Rightarrow> 'w cycle \<Rightarrow> string list list \<Rightarrow> 'w cycle" where
  "run_batches cfg fetchSectionNews c [] = c"
| "run_batches cfg fetchSectionNews c (batch # rest) =
     (let c1 = run_batch cfg fetchSectionNews c batch
      in case failure c1 of
           None \<Rightarrow> run_batches cfg fetchSectionNews c1 rest
         | Some e \<Rightarrow> c1)"

text \<open>
  \<^verbatim>\<open>refreshNews(specificSections = null)\<close>.  \<open>getSettings\<close> is what the configuration store
  returns (\<open>None\<close>: nothing), \<open>now\<close> is \<^verbatim>\<open>Date.now()\<close> at completion.  An error that left
  the loop is caught by the outer \<^verbatim>\<open>catch\<close>, which logs it (it is a \<^verbatim>\<open>TypeError\<close>
  object, so the reads of its message and stack do not throw); the completion time is then
  not recorded.  The \<^verbatim>\<open>finally\<close> block resets the loading flag in every case.  The result
  holds the published snapshot after the \<^verbatim>\<open>finally\<close> block, the trace of the cycle and
  the error that the outer \<^verbatim>\<open>catch\<close> caught.
\<close>

definition refreshNews ::
  "settings option \<Rightarrow> 'w adapter \<Rightarrow> nat \<Rightarrow> string list option \<Rightarrow> 'w \<times> snapshot \<Rightarrow> 'w cycle" where
  "refreshNews getSettings fetchSectionNews now specificSections st =
     (case st of (w, prev) \<Rightarrow>
        (let start = \<lparr>world = w, allCollectedResults = [],
                      published = prev\<lparr>loading := True\<rparr>, trace = [], failure = None\<rparr>
         in case getSettings of
              None \<Rightarrow> start\<lparr>published := (published start)\<lparr>loading := False\<rparr>\<rparr>
            | Some cfg \<Rightarrow>
                (let sectionsToFetch = resolved specificSections;
                     c = run_batches cfg fetchSectionNews start (batches_of sectionsToFetch)
                 in case failure c of
                      None \<Rightarrow>
                        c\<lparr>published := (published c)\<lparr>lastFetch := now, loading := False\<rparr>\<rparr>
                    | Some error \<Rightarrow>
                        c\<lparr>published := (published c)\<lparr>loading := False\<rparr>\<rparr>)))"

section \<open>Breaking shortlist as the specification words it\<close>


section \<open>Configuration change monitor\<close>

text \<open>
  \<^verbatim>\<open>JSON.stringify\<close> on the fingerprint object
  \<^verbatim>\<open>{sources: settings.newsSources, freshness: settings.freshnessLimitHours, enableCache: settings.enableCache}\<close>,
  for source keys of printable characters (a double quote and a backslash are escaped).
\<close>

definition dquote :: char where
  "dquote = CHR 0x22"

definition backslash :: char where
  "backslash = CHR 0x5C"

definition json_string :: "string \<Rightarrow> string" where
  "json_string s =
     dquote # concat (map (\<lambda>c. if c = dquote \<or> c = backslash then [backslash, c] else [c]) s)
       @ [dquote]"

definition json_bool :: "bool \<Rightarrow> string" where
  "json_bool b = (if b then ''true'' else ''false'')"

fun json_nat :: "nat \<Rightarrow> string" where
  "json_nat n =
     (if n < 10 then [char_of (48 + n)] else json_nat (n div 10) @ [char_of (48 + n mod 10)])"

declare json_nat.simps [simp del]

definition json_int :: "int \<Rightarrow> string" where
  "json_int i = (if i < 0 then CHR ''-'' # json_nat (nat (- i)) else json_nat (nat i))"

fun json_members :: "(string \<times> string) list \<Rightarrow> string" where
  "json_members [] = []"
| "json_members [(k, v)] = json_string k @ '':'' @ v"
| "json_members ((k, v) # rest) = json_string k @ '':'' @ v @ '','' @ json_members rest"

definition json_object :: "(string \<times> string) list \<Rightarrow> string" where
  "json_object members = ''{'' @ json_members members @ ''}''"

definition fingerprint :: "settings \<Rightarrow> string" where
  "fingerprint cfg =
     json_object
       [(''sources'', json_object (map (\<lambda>(k, b). (k, json_bool b)) (newsSources cfg))),
        (''freshness'', json_int (freshnessLimitHours cfg)),
        (''enableCache'', json_bool (enableCache cfg))]"

datatype action = ClearNewsCache | RefreshNews "string list option"

text \<open>
  One run of the effect that watches the settings: the actions it triggers, in order, and
  the state after \<^verbatim>\<open>setSettingsHash(newHash)\<close>.  The effect reads the fields of the
  configuration without a guard.
\<close>

definition settings_effect :: "settings option \<Rightarrow> snapshot \<Rightarrow> js_error + (action list \<times> snapshot)" where
  "settings_effect getSettings s =
     (case getSettings of
        None \<Rightarrow> Inl TypeError
      | Some cfg \<Rightarrow>
          (let newHash = fingerprint cfg
           in Inr (if settingsHash s \<noteq> [] \<and> settingsHash s \<noteq> newHash
                   then [ClearNewsCache, RefreshNews None] else [],
                   s\<lparr>settingsHash := newHash\<rparr>)))"


section \<open>Proximity scorer\<close>

text \<open>\<^verbatim>\<open>text.includes(pat)\<close>: \<open>pat\<close> starts at some position of \<open>text\<close>.\<close>

fun str_includes :: "'c list \<Rightarrow> 'c list \<Rightarrow> bool" where
  "str_includes [] pat = (pat = [])"
| "str_includes (c # cs) pat = (prefix pat (c # cs) \<or> str_includes cs pat)"

text \<open>
  \<^verbatim>\<open>calculateProximityScore(title, description)\<close> of \<^verbatim>\<open>src/utils/proximityScorer.js\<close>.
  A string is the list of its code units, of any type \<open>'c\<close>.  The built-in
  \<^verbatim>\<open>String.prototype.toLowerCase\<close> and the code unit of the space of the template
  \<^verbatim>\<open>`${title} ${description}`\<close> are parameters, and so is the table \<^verbatim>\<open>LOCATIONS\<close> of
  \<^verbatim>\<open>src/data/geolocation.js\<close>: the location names with their \<^verbatim>\<open>boost\<close>, in the order of
  \<^verbatim>\<open>Object.entries\<close>.  The settings are read without a guard.
\<close>

definition calculateProximityScore ::
  "settings option \<Rightarrow> ('c list \<Rightarrow> 'c list) \<Rightarrow> 'c \<Rightarrow> ('c list \<times> real) list
     \<Rightarrow> 'c list \<Rightarrow> 'c list \<Rightarrow> js_error + real" where
  "calculateProximityScore getSettings toLowerCase space LOCATIONS ttl description =
     (case getSettings of
        None \<Rightarrow> Inl TypeError
      | Some cfg \<Rightarrow>
          if enableProximityScoring cfg = Some False then Inr 1.0
          else
            (let text = toLowerCase (ttl @ [space] @ description)
             in Inr (foldl (\<lambda>maxBoost (locationName, boost).
                              if str_includes text (toLowerCase locationName)
                              then (if boost > maxBoost then boost else maxBoost)
                              else maxBoost)
                       1.0 LOCATIONS)))"

text \<open>
  The boosts of the gazetteer entries that match a text ignoring case: the lower-cased
  name is a contiguous part of the lower-cased text.
\<close>

definition matching_boosts ::
  "('c list \<Rightarrow> 'c list) \<Rightarrow> ('c list \<times> real) list \<Rightarrow> 'c list \<Rightarrow> real set" where
  "matching_boosts toLowerCase LOCATIONS body =
     {boost. \<exists>name. (name, boost) \<in> set LOCATIONS
                    \<and> sublist (toLowerCase name) (toLowerCase body)}"

text \<open>
  The proximity boost as the specification words it: 1.0 when scoring is disabled;
  otherwise the maximum boost among the gazetteer entries whose name occurs, ignoring
  case, in the concatenation of title and description, and 1.0 when none does.
\<close>

definition proximityBoost_spec ::
  "settings \<Rightarrow> ('c list \<Rightarrow> 'c list) \<Rightarrow> ('c list \<times> real) list \<Rightarrow> 'c list \<Rightarrow> 'c list \<Rightarrow> real" where
  "proximityBoost_spec cfg toLowerCase LOCATIONS ttl description =
     (if enableProximityScoring cfg = Some False then 1.0
      else if matching_boosts toLowerCase LOCATIONS (ttl @ description) = {} then 1.0
      else Max (matching_boosts toLowerCase LOCATIONS (ttl @ description)))"

text \<open>
  A condition on the table \<^verbatim>\<open>LOCATIONS\<close>, which is a parameter here because
  \<^verbatim>\<open>src/data/geolocation.js\<close> is not among the sources.  The specification calls
  its values boost multipliers and gives the scorer the range from 1.0 to the maximum
  boost: no boost of the table is below 1.0.
\<close>

definition boosts_in_range :: "('c list \<times> real) list \<Rightarrow> bool" where
  "boosts_in_range LOCATIONS = (\<forall>(name, boost) \<in> set LOCATIONS. 1 \<le> boost)"

section \<open>Reading a cycle\<close>

text \<open>What a settled fetch adds to the batch results: its articles or the empty list.\<close>

definition contribution :: "outcome \<Rightarrow> article list" where
  "contribution out =
     (case out of Inr (Articles articles) \<Rightarrow> articles | Inr NotAnArray \<Rightarrow> []
      | Inl rejected \<Rightarrow> [])"



fun publishes :: "event list \<Rightarrow> nat" where
  "publishes [] = 0"
| "publishes (Issued key target sources # es) = publishes es"
| "publishes (Settled key out # es) = publishes es"
| "publishes (Published # es) = Suc (publishes es)"



text \<open>The state in which \<^verbatim>\<open>refreshNews\<close> enters the loop over the batches.\<close>

definition cycle_start :: "'w \<Rightarrow> snapshot \<Rightarrow> 'w cycle" where
  "cycle_start w prev =
     \<lparr>world = w, allCollectedResults = [], published = prev\<lparr>loading := True\<rparr>,
      trace = [], failure = None\<rparr>"

text \<open>The bucket of a key: the stable sort of the accumulated articles of that section.\<close>

definition bucket_of :: "article list obj \<Rightarrow> string \<Rightarrow> article list" where
  "bucket_of acc k = array_sort impact_cmp (filter (\<lambda>a. classify a = k) (values_flat acc))"

section \<open>Concrete inputs\<close>

text \<open>A business article fetched under the key "world", and the first wave that holds it.\<close>

definition biz :: article where
  "biz = \<lparr>title = ''Markets rally'', link = ''https://example.org/1'',
           section_tag = Some ''business'', impactScore = Some 7,
           breakingScore = None, isBreaking = False\<rparr>"

definition wave1 :: snapshot where
  "wave1 = (case publish [(''world'', [biz])] [] initial_snapshot of
              Inr s \<Rightarrow> s | Inl e \<Rightarrow> initial_snapshot)"

text \<open>Three world articles, two of them with the same impact score.\<close>

definition w_low :: article where
  "w_low = \<lparr>title = ''Summit opens'', link = ''https://example.org/2'',
             section_tag = Some ''world'', impactScore = Some 3,
             breakingScore = Some 2, isBreaking = False\<rparr>"

definition w_hi1 :: article where
  "w_hi1 = \<lparr>title = ''Storm lands'', link = ''https://example.org/3'',
             section_tag = Some ''world'', impactScore = Some 9,
             breakingScore = Some 1, isBreaking = True\<rparr>"

definition w_hi2 :: article where
  "w_hi2 = \<lparr>title = ''Talks resume'', link = ''https://example.org/4'',
             section_tag = Some ''world'', impactScore = Some 9,
             breakingScore = None, isBreaking = False\<rparr>"

text \<open>
  A configuration with three enabled sections and one disabled, and an adapter that
  returns two world articles, rejects the fetch of "india" with an error of message
  "timeout" (settling first) and returns one business article for "business".  The state
  of its world counts the calls.
\<close>

definition cfg0 :: settings where
  "cfg0 = \<lparr>sections =
             [''world'' \<mapsto> \<lparr>enabled = True, count = Some 5\<rparr>,
              ''india'' \<mapsto> \<lparr>enabled = True, count = Some 3\<rparr>,
              ''business'' \<mapsto> \<lparr>enabled = True, count = None\<rparr>,
              ''social'' \<mapsto> \<lparr>enabled = False, count = Some 25\<rparr>],
           newsSources = [(''bbc'', True), (''ndtv'', False)],
           freshnessLimitHours = 24,
           enableCache = True,
           enableProximityScoring = None,
           uiMode = ''timeline''\<rparr>"

definition adapter0 :: "nat adapter" where
  "adapter0 key target sources w =
     (if key = ''world'' then ((Inr (Articles [w_low, w_hi1]), 2), Suc w)
      else if key = ''india'' then ((Inl (Thrown (Some ''timeout'')), 1), Suc w)
      else if key = ''business'' then ((Inr (Articles [biz]), 0), Suc w)
      else ((Inr NotAnArray, 0), Suc w))"

definition start0 :: "nat cycle" where
  "start0 = cycle_start 0 initial_snapshot"




text \<open>
  A cycle that starts from a snapshot with a published "technology" bucket and a recorded
  error for "local".
\<close>

definition tech :: article where
  "tech = \<lparr>title = ''Chip unveiled'', link = ''https://example.org/5'',
            section_tag = Some ''technology'', impactScore = Some 4,
            breakingScore = None, isBreaking = False\<rparr>"

definition prev0 :: snapshot where
  "prev0 = \<lparr>newsData = [''technology'' \<mapsto> [tech]], breakingNews = [], loading = False,
             errors = [''local'' \<mapsto> Some ''offline''], lastFetch = 5, settingsHash = []\<rparr>"

definition start1 :: "nat cycle" where
  "start1 = cycle_start 0 prev0"

text \<open>A configuration in which the enabled section "world" has the count 0.\<close>

definition cfg_zero :: settings where
  "cfg_zero = \<lparr>sections = [''world'' \<mapsto> \<lparr>enabled = True, count = Some 0\<rparr>],
               newsSources = [(''bbc'', True)],
               freshnessLimitHours = 24,
               enableCache = True,
               enableProximityScoring = None,
               uiMode = ''timeline''\<rparr>"



definition cfg_no_proximity :: settings where
  "cfg_no_proximity = cfg0\<lparr>enableProximityScoring := Some False\<rparr>"

text \<open>
  The gazetteer of the specification's example, over strings of ASCII characters, on
  which \<^verbatim>\<open>toLowerCase\<close> lowers the letters A to Z and leaves the rest.
\<close>

definition lower_char :: "char \<Rightarrow> char" where
  "lower_char c =
     (let n = (of_char c :: nat) in if 65 \<le> n \<and> n \<le> 90 then char_of (n + 32) else c)"

definition ascii_lower :: "string \<Rightarrow> string" where
  "ascii_lower s = map lower_char s"

definition gazetteer0 :: "(string \<times> real) list" where
  "gazetteer0 = [(''muscat'', 1.8)]"

text \<open>
  An association list that is the own properties of an object: no key twice, and no own
  property \<^verbatim>\<open>__proto__\<close>.
\<close>

definition well_formed :: "'v obj \<Rightarrow> bool" where
  "well_formed ob = (distinct (map fst ob) \<and> ''__proto__'' \<notin> fst ` set ob)"

text \<open>
  The adapter \<open>adapter0\<close>, except that the fetch of "world" returns three articles, the
  last two with the same impact score.
\<close>

definition adapter_tie :: "nat adapter" where
  "adapter_tie key target sources w =
     (if key = ''world'' then ((Inr (Articles [w_low, w_hi1, w_hi2]), 0), Suc w)
      else adapter0 key target sources w)"

section \<open>Facts about the primitives\<close>

lemma insert_by_insort_key:
  "insert_by (\<lambda>a b. f b - f a) x ys = insort_key (\<lambda>a. - f a) x ys"
  by (induction ys) auto

lemma array_sort_sort_key:
  "array_sort (\<lambda>a b. f b - f a) xs = sort_key (\<lambda>a. - f a) xs"
  by (induction xs) (simp_all add: array_sort_def sort_key_def insert_by_insort_key)

lemma impact_sort_key:
  "array_sort impact_cmp xs = sort_key (\<lambda>a. - or0 (impactScore a)) xs"
proof -
  have eq: "impact_cmp = (\<lambda>a b. or0 (impactScore b) - or0 (impactScore a))"
    by (intro ext) (simp add: impact_cmp_def)
  show ?thesis unfolding eq by (rule array_sort_sort_key)
qed


lemma own_entries_set: "set (own_entries ob) = set ob"
  by (auto simp: own_entries_def)

lemma own_entries_keys: "fst ` set (own_entries ob) = fst ` set ob"
  by (simp add: own_entries_set)


lemma values_flat_set: "set (values_flat ob) = (\<Union>kv \<in> set ob. set (snd kv))"
  by (simp add: values_flat_def own_entries_set)

lemma cleared_lookup:
  "foldl (\<lambda>r key. r(key \<mapsto> [])) r0 ks k = (if k \<in> set ks then Some [] else r0 k)"
  by (induction ks arbitrary: r0) auto

lemma push_item_Inr:
  assumes "push_item r x = Inr r1"
  shows "r1 = r(classify x \<mapsto> (case r (classify x) of None \<Rightarrow> [] | Some b \<Rightarrow> b) @ [x])"
  using assms by (auto simp: push_item_def Let_def split: option.splits if_splits)

lemma push_item_Inl:
  "push_item r x = Inl e \<longleftrightarrow> classify x \<in> set inherited \<and> r (classify x) = None"
  by (cases e) (auto simp: push_item_def Let_def split: option.splits)

lemma push_all_lookup:
  assumes "push_all r xs = Inr r'"
  shows "r' k =
     (if filter (\<lambda>a. classify a = k) xs = [] then r k
      else Some ((case r k of None \<Rightarrow> [] | Some b \<Rightarrow> b) @ filter (\<lambda>a. classify a = k) xs))"
  using assms
proof (induction xs arbitrary: r)
  case Nil
  then show ?case by simp
next
  case (Cons x xs)
  from Cons.prems obtain r1 where r1: "push_item r x = Inr r1" and rest: "push_all r1 xs = Inr r'"
    by (auto split: sum.splits)
  note eq = push_item_Inr [OF r1]
  show ?case
    by (simp add: Cons.IH [OF rest]) (simp add: eq split: option.splits)
qed

lemma push_all_Inl:
  "push_all r xs = Inl e \<longleftrightarrow>
     (\<exists>a \<in> set xs. classify a \<in> set inherited \<and> r (classify a) = None)"
proof (induction xs arbitrary: r)
  case Nil
  then show ?case by simp
next
  case (Cons x xs)
  show ?case
  proof (cases "push_item r x")
    case (Inl e')
    then have "classify x \<in> set inherited \<and> r (classify x) = None"
      by (simp add: push_item_Inl)
    moreover have "e' = e" by (cases e; cases e') simp
    ultimately show ?thesis using Inl by auto
  next
    case (Inr r1)
    note eq = push_item_Inr [OF Inr]
    from Inr have no: "\<not> (classify x \<in> set inherited \<and> r (classify x) = None)"
      using push_item_Inl [of r x e] by simp
    have "push_all r (x # xs) = Inl e \<longleftrightarrow> push_all r1 xs = Inl e"
      by (simp add: Inr)
    also have "\<dots> \<longleftrightarrow> (\<exists>a \<in> set xs. classify a \<in> set inherited \<and> r1 (classify a) = None)"
      by (rule Cons.IH)
    also have "\<dots> \<longleftrightarrow> (\<exists>a \<in> set xs. classify a \<in> set inherited \<and> r (classify a) = None)"
    proof -
      have "(classify a \<in> set inherited \<and> r1 (classify a) = None)
          \<longleftrightarrow> (classify a \<in> set inherited \<and> r (classify a) = None)" for a
        using no by (cases "classify a = classify x") (simp_all add: eq)
      then show ?thesis by simp
    qed
    also have "\<dots> \<longleftrightarrow> (\<exists>a \<in> set (x # xs). classify a \<in> set inherited \<and> r (classify a) = None)"
      using no by auto
    finally show ?thesis .
  qed
qed

text \<open>The bucket the redistribution pass computes for a key, and when the pass throws.\<close>

lemma redistribute_lookup:
  assumes "redistribute acc = Inr r"
  shows "r k =
     (if k \<in> fst ` set acc \<or> k \<in> classify ` set (values_flat acc)
      then Some (bucket_of acc k) else None)"
proof -
  let ?cleared = "foldl (\<lambda>r key. r(key \<mapsto> ([] :: article list))) Map.empty
      (map fst (own_entries acc))"
  from assms obtain filled where f: "push_all ?cleared (values_flat acc) = Inr filled"
    and r: "r = (\<lambda>key. map_option (array_sort impact_cmp) (filled key))"
    by (auto simp: redistribute_def Let_def split: sum.splits)
  have empty_iff: "filter (\<lambda>a. classify a = k) (values_flat acc) = []
      \<longleftrightarrow> k \<notin> classify ` set (values_flat acc)"
    by (auto simp: filter_empty_conv)
  have keys: "set (map fst (own_entries acc)) = fst ` set acc"
    by (simp add: own_entries_set)
  show ?thesis
    unfolding r bucket_of_def
    by (simp add: push_all_lookup [OF f] cleared_lookup own_entries_set empty_iff)
       (auto simp: empty_iff [symmetric] array_sort_def)
qed

lemma redistribute_Inl:
  "redistribute acc = Inl e \<longleftrightarrow>
     (\<exists>a \<in> set (values_flat acc). classify a \<in> set inherited \<and> classify a \<notin> fst ` set acc)"
proof -
  let ?cleared = "foldl (\<lambda>r key. r(key \<mapsto> ([] :: article list))) Map.empty
      (map fst (own_entries acc))"
  have keys: "set (map fst (own_entries acc)) = fst ` set acc"
    by (simp add: own_entries_set)
  have "redistribute acc = Inl e \<longleftrightarrow> push_all ?cleared (values_flat acc) = Inl e"
    by (cases e) (auto simp: redistribute_def Let_def split: sum.splits js_error.splits)
  also have "\<dots> \<longleftrightarrow> (\<exists>a \<in> set (values_flat acc).
      classify a \<in> set inherited \<and> ?cleared (classify a) = None)"
    by (simp only: push_all_Inl)
  also have "\<dots> \<longleftrightarrow> (\<exists>a \<in> set (values_flat acc).
      classify a \<in> set inherited \<and> classify a \<notin> fst ` set acc)"
    by (auto simp: cleared_lookup own_entries_set)
  finally show ?thesis .
qed

lemma redistribute_plain:
  assumes "\<forall>a \<in> set (values_flat acc). classify a \<in> set inherited \<longrightarrow> classify a \<in> fst ` set acc"
  obtains r where "redistribute acc = Inr r"
proof (cases "redistribute acc")
  case (Inl e)
  with assms show ?thesis by (auto simp: redistribute_Inl)
next
  case (Inr r)
  then show ?thesis by (rule that)
qed

lemma publish_Inr:
  assumes "publish acc errs s = Inr s'"
  obtains r where "redistribute acc = Inr r"
    and "s' = s\<lparr>newsData := newsData s ++ r,
               errors := foldl (\<lambda>e (k, message). e(k \<mapsto> message)) (errors s) (own_entries errs),
               breakingNews := breaking_of (values_flat acc)\<rparr>"
  using assms by (auto simp: publish_def split: sum.splits)

lemma publish_Inl: "publish acc errs s = Inl e \<longleftrightarrow> redistribute acc = Inl e"
  by (auto simp: publish_def split: sum.splits)

lemma published_bucket:
  assumes "publish acc errs s = Inr s'"
  shows "newsData s' k =
     (if k \<in> fst ` set acc \<or> k \<in> classify ` set (values_flat acc)
      then Some (bucket_of acc k) else newsData s k)"
proof -
  from assms obtain r where r: "redistribute acc = Inr r"
    and s': "newsData s' = newsData s ++ r"
    by (auto elim!: publish_Inr)
  show ?thesis
    by (simp add: s' map_add_def redistribute_lookup [OF r])
qed

text \<open>An invariant of the buckets of a publish is kept by every observable snapshot.\<close>

lemma observable_buckets:
  assumes "observable s"
    and "\<And>acc k. P k (bucket_of acc k)"
    and "newsData s k = Some b"
  shows "P k b"
  using assms(1,3)
proof (induction arbitrary: k b rule: observable.induct)
  case obs_init
  then show ?case by (simp add: initial_snapshot_def)
next
  case (obs_publish s acc errs s')
  show ?case
  proof (cases "k \<in> fst ` set acc \<or> k \<in> classify ` set (values_flat acc)")
    case True
    with obs_publish.prems published_bucket [OF obs_publish.hyps(2), of k]
    have "b = bucket_of acc k" by simp
    then show ?thesis by (simp add: assms(2))
  next
    case False
    with obs_publish.prems published_bucket [OF obs_publish.hyps(2), of k]
    have "newsData s k = Some b" by simp
    then show ?thesis by (rule obs_publish.IH)
  qed
qed simp_all

lemma bucket_of_sort_key:
  "bucket_of acc k
     = sort_key (\<lambda>a. - or0 (impactScore a)) (filter (\<lambda>a. classify a = k) (values_flat acc))"
  by (simp add: bucket_of_def impact_sort_key)

section \<open>Reclassification\<close>

text \<open>
  Claim C1.  In every observable snapshot, every article of a published bucket has the
  bucket's key as its classified section: its own section field, or "uncategorized" when
  the field is absent or empty.  In particular an article whose section is "business" is
  never in the published "world" bucket, whatever key it was fetched under.
\<close>

theorem C1_reclassification:
  "observable s \<Longrightarrow> newsData s k = Some bucket \<Longrightarrow> a \<in> set bucket \<Longrightarrow>
     k = (case section_tag a of None \<Rightarrow> ''uncategorized''
          | Some sec \<Rightarrow> if sec = [] then ''uncategorized'' else sec)
     \<and> (section_tag a = Some ''business'' \<longrightarrow> k \<noteq> ''world'')"
proof -
  assume obs: "observable s" and nd: "newsData s k = Some bucket" and mem: "a \<in> set bucket"
  have "\<forall>x \<in> set bucket. classify x = k"
    using obs _ nd
    by (rule observable_buckets [where P = "\<lambda>k b. \<forall>x \<in> set b. classify x = k"])
       (simp add: bucket_of_sort_key)
  with mem have "classify a = k" by blast
  then show ?thesis by (auto simp: classify_def split: option.splits if_splits)
qed

lemma not_index:
  "\<not> is_array_index ''world''" "\<not> is_array_index ''india''" "\<not> is_array_index ''business''"
  by (simp_all add: is_array_index_def)

lemma wave1_publish: "publish [(''world'', [biz])] [] initial_snapshot = Inr wave1"
proof -
  obtain r where "redistribute [(''world'', [biz])] = Inr r"
    by (rule redistribute_plain [of "[(''world'', [biz])]"])
       (simp_all add: values_flat_set classify_def biz_def inherited_def)
  then show ?thesis by (simp add: wave1_def publish_def)
qed

theorem C1_reclassification_witness:
  "observable wave1 \<and> newsData wave1 ''business'' = Some [biz] \<and> biz \<in> set [biz]
   \<and> ''business'' = (case section_tag biz of None \<Rightarrow> ''uncategorized''
          | Some sec \<Rightarrow> if sec = [] then ''uncategorized'' else sec)
   \<and> section_tag biz = Some ''business'' \<and> ''business'' \<noteq> ''world''"
proof -
  have o: "observable wave1"
    using obs_init wave1_publish by (rule obs_publish)
  have n: "newsData wave1 ''business'' = Some [biz]"
    by (simp add: published_bucket [OF wave1_publish] values_flat_set bucket_of_def
        values_flat_def own_entries_def not_index classify_def biz_def array_sort_def
        initial_snapshot_def)
  have m: "biz \<in> set [biz]" by simp
  from C1_reclassification [OF o n m] o n show ?thesis by (simp add: biz_def)
qed

section \<open>Objects and settlement\<close>



lemma keys_overwrite:
  "map fst (map (\<lambda>(k', v'). if k' = k then (k', v) else (k', v')) ob) = map fst ob"
  by (induction ob) (simp_all add: case_prod_beta)

lemma values_overwrite:
  "snd ` set (map (\<lambda>(k', v'). if k' = k then (k', v) else (k', v')) ob) \<subseteq> insert v (snd ` set ob)"
  by (induction ob) (auto simp: case_prod_beta)

lemma obj_set_proto: "obj_set ob ''__proto__'' v = ob"
  by (simp add: obj_set_def)


lemma keys_obj_set:
  assumes "k \<noteq> ''__proto__''"
  shows "fst ` set (obj_set ob k v) = insert k (fst ` set ob)"
proof -
  have "set (map fst (obj_set ob k v)) = insert k (set (map fst ob))"
    using assms unfolding obj_set_def
    by (simp only: keys_overwrite if_distrib [of "\<lambda>l. set (map fst l)"]) auto
  then show ?thesis by simp
qed

lemma values_obj_set: "snd ` set (obj_set ob k v) \<subseteq> insert v (snd ` set ob)"
  using values_overwrite [of k v ob] by (auto simp: obj_set_def)

lemma obj_set_well_formed:
  assumes "well_formed ob"
  shows "well_formed (obj_set ob k v)"
proof (cases "k = ''__proto__''")
  case True
  with assms show ?thesis by (simp add: obj_set_proto)
next
  case False
  have "distinct (map fst (obj_set ob k v))"
    using assms unfolding obj_set_def well_formed_def
    by (simp add: keys_overwrite del: map_map)
  with False assms show ?thesis
    by (simp add: well_formed_def keys_obj_set)
qed




lemma assign_keys:
  assumes "''__proto__'' \<notin> fst ` set es"
  shows "fst ` set (foldl (\<lambda>t (k, v). obj_set t k v) t es) = fst ` set t \<union> fst ` set es"
  using assms
proof (induction es rule: rev_induct)
  case Nil
  then show ?case by simp
next
  case (snoc e es)
  obtain k v where e: "e = (k, v)" by (cases e)
  from snoc.prems have k: "k \<noteq> ''__proto__''" and rest: "''__proto__'' \<notin> fst ` set es"
    by (auto simp: e)
  show ?case
    by (auto simp: e keys_obj_set [OF k] snoc.IH [OF rest])
qed

lemma assign_values:
  "snd ` set (foldl (\<lambda>t (k, v). obj_set t k v) t es) \<subseteq> snd ` set t \<union> snd ` set es"
proof (induction es rule: rev_induct)
  case Nil
  then show ?case by simp
next
  case (snoc e es)
  obtain k v where e: "e = (k, v)" by (cases e)
  show ?case
    using snoc.IH values_obj_set [of "foldl (\<lambda>t (k, v). obj_set t k v) t es" k v]
    by (simp add: e) blast
qed



lemma keys_object_assign:
  assumes "well_formed src"
  shows "fst ` set (object_assign target src) = fst ` set target \<union> fst ` set src"
proof -
  have p: "''__proto__'' \<notin> fst ` set (own_entries src)"
    using assms by (simp add: well_formed_def own_entries_set)
  show ?thesis
    by (simp add: object_assign_def assign_keys [OF p] own_entries_set)
qed

lemma values_object_assign:
  "snd ` set (object_assign target src) \<subseteq> snd ` set target \<union> snd ` set src"
  using assign_values [of target "own_entries src"]
  by (simp add: object_assign_def own_entries_set)


lemma spread_errors_rev:
  "foldl (\<lambda>e (k, message). e(k \<mapsto> message)) e0 be = e0 ++ map_of (rev be)"
proof (induction be rule: rev_induct)
  case Nil
  then show ?case by simp
next
  case (snoc x xs)
  obtain k v where x: "x = (k, v)" by (cases x)
  have "foldl (\<lambda>e (k, message). e(k \<mapsto> message)) e0 (xs @ [x])
      = (foldl (\<lambda>e (k, message). e(k \<mapsto> message)) e0 xs)(k \<mapsto> v)"
    by (simp add: x)
  also have "\<dots> = (e0 ++ map_of (rev xs))(k \<mapsto> v)"
    by (simp only: snoc.IH)
  also have "\<dots> = e0 ++ map_of (rev (xs @ [x]))"
    by (simp add: x)
  finally show ?case .
qed


lemma spread_errors_frame:
  assumes "k \<notin> fst ` set be"
  shows "foldl (\<lambda>e (k, message). e(k \<mapsto> message)) e0 (own_entries be) k = e0 k"
proof -
  from assms have "k \<notin> fst ` set (rev (own_entries be))"
    by (simp add: own_entries_set)
  then have "map_of (rev (own_entries be)) k = None"
    by (simp only: map_of_eq_None_iff not_False_eq_True)
  then show ?thesis by (simp add: spread_errors_rev map_add_def)
qed

lemma settle_Inl: "settle st p = Inl e \<longleftrightarrow> p_outcome p = Inl Nullish"
  by (cases st; cases e)
     (auto simp: settle_def split: sum.splits fetched.splits rejection.splits)

lemma settle_Inr:
  assumes "settle st p = Inr st'"
  shows "fst st' = obj_set (fst st) (p_key p) (contribution (p_outcome p))"
    and "snd st' = (case p_outcome p of
                      Inl (Thrown message) \<Rightarrow> obj_set (snd st) (p_key p) message
                    | _ \<Rightarrow> snd st)"
    and "p_outcome p \<noteq> Inl Nullish"
  using assms
  by (cases st; auto simp: settle_def contribution_def
        split: sum.splits fetched.splits rejection.splits)+

lemma settle_all_Inl:
  "settle_all st ps = Inl e \<longleftrightarrow> (\<exists>p \<in> set ps. p_outcome p = Inl Nullish)"
proof (induction ps arbitrary: st)
  case Nil
  then show ?case by simp
next
  case (Cons p ps)
  show ?case
  proof (cases "settle st p")
    case (Inl e')
    moreover have "e' = e" by (cases e; cases e') simp
    ultimately show ?thesis using settle_Inl [of st p e] by simp
  next
    case (Inr st1)
    then have "p_outcome p \<noteq> Inl Nullish" by (rule settle_Inr(3))
    then show ?thesis by (simp add: Inr Cons.IH)
  qed
qed

lemma settle_all_well_formed:
  assumes "settle_all st ps = Inr st'" and "well_formed (fst st)" and "well_formed (snd st)"
  shows "well_formed (fst st') \<and> well_formed (snd st')"
  using assms
proof (induction ps arbitrary: st)
  case Nil
  then show ?case by simp
next
  case (Cons p ps)
  from Cons.prems(1) obtain st1 where st1: "settle st p = Inr st1"
    and rest: "settle_all st1 ps = Inr st'"
    by (auto split: sum.splits)
  have "well_formed (fst st1)"
    using Cons.prems(2) by (simp add: settle_Inr(1) [OF st1] obj_set_well_formed)
  moreover have "well_formed (snd st1)"
    using Cons.prems(3)
    by (simp add: settle_Inr(2) [OF st1] obj_set_well_formed
        split: sum.splits rejection.splits)
  ultimately show ?case using rest by (rule Cons.IH [rotated 1])
qed

lemma settle_all_keys:
  assumes "settle_all st ps = Inr st'"
  shows "fst ` set (fst st') = fst ` set (fst st) \<union> (p_key ` set ps - {''__proto__''})"
    and "fst ` set (snd st')
       = fst ` set (snd st) \<union> (p_key ` {p \<in> set ps. isl (p_outcome p)} - {''__proto__''})"
  using assms
proof (induction ps arbitrary: st)
  case Nil
  {
    case 1
    then show ?case by simp
  next
    case 2
    then show ?case by simp
  }
next
  case (Cons p ps)
  {
    case 1
    then obtain st1 where st1: "settle st p = Inr st1"
      and rest: "settle_all st1 ps = Inr st'"
      by (auto split: sum.splits)
    have "fst ` set (fst st1) = fst ` set (fst st) \<union> ({p_key p} - {''__proto__''})"
      by (cases "p_key p = ''__proto__''")
         (simp_all add: settle_Inr(1) [OF st1] obj_set_proto keys_obj_set)
    with Cons.IH(1) [OF rest] show ?case by auto
  next
    case 2
    then obtain st1 where st1: "settle st p = Inr st1"
      and rest: "settle_all st1 ps = Inr st'"
      by (auto split: sum.splits)
    have "fst ` set (snd st1)
        = fst ` set (snd st) \<union> (p_key ` {q \<in> {p}. isl (p_outcome q)} - {''__proto__''})"
      using settle_Inr(3) [OF st1]
      by (cases "p_key p = ''__proto__''"; cases "p_outcome p")
         (auto simp: settle_Inr(2) [OF st1] obj_set_proto keys_obj_set
            split: rejection.splits)
    moreover have "p_key ` {q \<in> set (p # ps). isl (p_outcome q)}
        = p_key ` {q \<in> {p}. isl (p_outcome q)} \<union> p_key ` {q \<in> set ps. isl (p_outcome q)}"
      by auto
    ultimately show ?case
      by (simp only: Cons.IH(2) [OF rest]) blast
  }
qed

lemma settle_all_values:
  assumes "settle_all st ps = Inr st'"
  shows "snd ` set (fst st') \<subseteq> snd ` set (fst st) \<union> (\<lambda>p. contribution (p_outcome p)) ` set ps"
  using assms
proof (induction ps arbitrary: st)
  case Nil
  then show ?case by simp
next
  case (Cons p ps)
  from Cons.prems obtain st1 where st1: "settle st p = Inr st1"
    and rest: "settle_all st1 ps = Inr st'"
    by (auto split: sum.splits)
  have "snd ` set (fst st1) \<subseteq> insert (contribution (p_outcome p)) (snd ` set (fst st))"
    by (simp add: settle_Inr(1) [OF st1] values_obj_set)
  with Cons.IH [OF rest] show ?case by auto
qed



section \<open>One wave\<close>

lemma issue_calls:
  "map (\<lambda>p. (p_key p, p_count p, p_sources p)) (fst (issue cfg ad batch w))
     = map (\<lambda>key. (key, count_or_10 cfg key + 5, newsSources cfg))
         (filter (section_enabled cfg) batch)"
  by (induction batch arbitrary: w) (simp_all add: Let_def case_prod_beta)

lemma issue_keys:
  "map p_key (fst (issue cfg ad batch w)) = filter (section_enabled cfg) batch"
  by (induction batch arbitrary: w) (simp_all add: Let_def case_prod_beta)



lemma settle_order_set: "set (settle_order ps) = set ps"
  by (simp add: settle_order_def)


lemma until_throw_all:
  "\<forall>p \<in> set ps. p_outcome p \<noteq> Inl Nullish \<Longrightarrow> until_throw ps = ps"
  by (induction ps) simp_all


lemma until_throw_nullish:
  "\<exists>p \<in> set ps. p_outcome p = Inl Nullish \<Longrightarrow>
     \<exists>p \<in> set (until_throw ps). p_outcome p = Inl Nullish"
  by (induction ps) auto

text \<open>The three ways in which a wave ends.\<close>

lemma run_batch_cases:
  obtains
    (catch_throws)
      "\<exists>p \<in> set (fst (issue cfg ad batch (world c))). p_outcome p = Inl Nullish"
      "run_batch cfg ad c batch =
         c\<lparr>world := snd (issue cfg ad batch (world c)),
           trace := trace c
             @ map (\<lambda>p. Issued (p_key p) (p_count p) (p_sources p))
                 (fst (issue cfg ad batch (world c)))
             @ map (\<lambda>p. Settled (p_key p) (p_outcome p))
                 (until_throw (settle_order (fst (issue cfg ad batch (world c))))),
           failure := Some TypeError\<rparr>"
  | (push_throws) br be where
      "settle_all ([], []) (settle_order (fst (issue cfg ad batch (world c)))) = Inr (br, be)"
      "publish (object_assign (allCollectedResults c) br) be (published c) = Inl TypeError"
      "run_batch cfg ad c batch =
         c\<lparr>world := snd (issue cfg ad batch (world c)),
           allCollectedResults := object_assign (allCollectedResults c) br,
           trace := trace c
             @ map (\<lambda>p. Issued (p_key p) (p_count p) (p_sources p))
                 (fst (issue cfg ad batch (world c)))
             @ map (\<lambda>p. Settled (p_key p) (p_outcome p))
                 (settle_order (fst (issue cfg ad batch (world c)))),
           failure := Some TypeError\<rparr>"
  | (publishes) br be s where
      "settle_all ([], []) (settle_order (fst (issue cfg ad batch (world c)))) = Inr (br, be)"
      "publish (object_assign (allCollectedResults c) br) be (published c) = Inr s"
      "run_batch cfg ad c batch =
         c\<lparr>world := snd (issue cfg ad batch (world c)),
           allCollectedResults := object_assign (allCollectedResults c) br,
           published := s,
           trace := trace c
             @ map (\<lambda>p. Issued (p_key p) (p_count p) (p_sources p))
                 (fst (issue cfg ad batch (world c)))
             @ map (\<lambda>p. Settled (p_key p) (p_outcome p))
                 (settle_order (fst (issue cfg ad batch (world c))))
             @ [Published],
           failure := None\<rparr>"
proof -
  let ?ps = "fst (issue cfg ad batch (world c))"
  let ?settled = "settle_order ?ps"
  show ?thesis
  proof (cases "settle_all ([], []) ?settled")
    case (Inl e)
    have e: "e = TypeError" by (cases e) simp
    from Inl have "\<exists>p \<in> set ?ps. p_outcome p = Inl Nullish"
      by (simp add: settle_all_Inl settle_order_set)
    moreover have "run_batch cfg ad c batch =
         c\<lparr>world := snd (issue cfg ad batch (world c)),
           trace := trace c
             @ map (\<lambda>p. Issued (p_key p) (p_count p) (p_sources p)) ?ps
             @ map (\<lambda>p. Settled (p_key p) (p_outcome p)) (until_throw ?settled),
           failure := Some TypeError\<rparr>"
      by (simp add: run_batch_def Let_def case_prod_beta Inl e)
    ultimately show ?thesis by (rule catch_throws)
  next
    case (Inr st)
    obtain br be where st: "st = (br, be)" by (cases st)
    have "\<forall>p \<in> set ?settled. p_outcome p \<noteq> Inl Nullish"
      using Inr settle_all_Inl [of "([], [])" ?settled TypeError] by auto
    then have ut: "until_throw ?settled = ?settled" by (rule until_throw_all)
    show ?thesis
    proof (cases "publish (object_assign (allCollectedResults c) br) be (published c)")
      case (Inl e)
      have e: "e = TypeError" by (cases e) simp
      show ?thesis
        by (rule push_throws [of br be])
           (simp_all add: run_batch_def Let_def case_prod_beta Inr st Inl e ut)
    next
      case publ: (Inr s)
      show ?thesis
        by (rule publishes [of br be s])
           (simp_all add: run_batch_def Let_def case_prod_beta Inr st publ ut)
    qed
  qed
qed

lemma wave_cases:
  obtains
    (catch_throws)
      "\<exists>p \<in> set (fst (issue cfg ad batch (world c))). p_outcome p = Inl Nullish"
      "failure (run_batch cfg ad c batch) = Some TypeError"
      "published (run_batch cfg ad c batch) = published c"
      "allCollectedResults (run_batch cfg ad c batch) = allCollectedResults c"
      "trace (run_batch cfg ad c batch)
         = trace c
           @ map (\<lambda>p. Issued (p_key p) (p_count p) (p_sources p))
               (fst (issue cfg ad batch (world c)))
           @ map (\<lambda>p. Settled (p_key p) (p_outcome p))
               (until_throw (settle_order (fst (issue cfg ad batch (world c)))))"
  | (push_throws) br be where
      "settle_all ([], []) (settle_order (fst (issue cfg ad batch (world c)))) = Inr (br, be)"
      "redistribute (object_assign (allCollectedResults c) br) = Inl TypeError"
      "failure (run_batch cfg ad c batch) = Some TypeError"
      "published (run_batch cfg ad c batch) = published c"
      "allCollectedResults (run_batch cfg ad c batch) = object_assign (allCollectedResults c) br"
      "trace (run_batch cfg ad c batch)
         = trace c
           @ map (\<lambda>p. Issued (p_key p) (p_count p) (p_sources p))
               (fst (issue cfg ad batch (world c)))
           @ map (\<lambda>p. Settled (p_key p) (p_outcome p))
               (settle_order (fst (issue cfg ad batch (world c))))"
  | (publishes) br be where
      "settle_all ([], []) (settle_order (fst (issue cfg ad batch (world c)))) = Inr (br, be)"
      "publish (allCollectedResults (run_batch cfg ad c batch)) be (published c)
         = Inr (published (run_batch cfg ad c batch))"
      "failure (run_batch cfg ad c batch) = None"
      "allCollectedResults (run_batch cfg ad c batch) = object_assign (allCollectedResults c) br"
      "trace (run_batch cfg ad c batch)
         = trace c
           @ map (\<lambda>p. Issued (p_key p) (p_count p) (p_sources p))
               (fst (issue cfg ad batch (world c)))
           @ map (\<lambda>p. Settled (p_key p) (p_outcome p))
               (settle_order (fst (issue cfg ad batch (world c))))
           @ [Published]"
proof (cases rule: run_batch_cases [of cfg ad batch c])
  case catch_throws
  show ?thesis
    by (rule that(1)) (use catch_throws in \<open>simp_all\<close>)
next
  case (push_throws br be)
  show ?thesis
    by (rule that(2) [of br be]) (use push_throws in \<open>simp_all add: publish_Inl\<close>)
next
  case (publishes br be s)
  show ?thesis
    by (rule that(3) [of br be]) (use publishes in \<open>simp_all\<close>)
qed

lemma wave_world:
  "world (run_batch cfg ad c batch) = snd (issue cfg ad batch (world c))"
  by (cases rule: run_batch_cases [of cfg ad batch c]) simp_all

lemma wave_unpublished:
  assumes "failure (run_batch cfg ad c batch) \<noteq> None"
  shows "published (run_batch cfg ad c batch) = published c"
  using assms by (cases rule: wave_cases [of cfg ad batch c]) simp_all


lemma wave_trace:
  "trace (run_batch cfg ad c batch)
     = trace c
       @ map (\<lambda>p. Issued (p_key p) (p_count p) (p_sources p)) (fst (issue cfg ad batch (world c)))
       @ map (\<lambda>p. Settled (p_key p) (p_outcome p))
           (until_throw (settle_order (fst (issue cfg ad batch (world c)))))
       @ (if failure (run_batch cfg ad c batch) = None then [Published] else [])"
proof (cases rule: wave_cases [of cfg ad batch c])
  case catch_throws
  then show ?thesis by simp
next
  case (push_throws br be)
  from push_throws(1) have "\<forall>p \<in> set (settle_order (fst (issue cfg ad batch (world c)))).
      p_outcome p \<noteq> Inl Nullish"
    using settle_all_Inl [of "([], [])" "settle_order (fst (issue cfg ad batch (world c)))" TypeError]
    by auto
  then have "until_throw (settle_order (fst (issue cfg ad batch (world c))))
      = settle_order (fst (issue cfg ad batch (world c)))"
    by (rule until_throw_all)
  with push_throws show ?thesis by simp
next
  case (publishes br be)
  from publishes(1) have "\<forall>p \<in> set (settle_order (fst (issue cfg ad batch (world c)))).
      p_outcome p \<noteq> Inl Nullish"
    using settle_all_Inl [of "([], [])" "settle_order (fst (issue cfg ad batch (world c)))" TypeError]
    by auto
  then have "until_throw (settle_order (fst (issue cfg ad batch (world c))))
      = settle_order (fst (issue cfg ad batch (world c)))"
    by (rule until_throw_all)
  with publishes show ?thesis by simp
qed

lemma well_formed_empty: "well_formed []"
  by (simp add: well_formed_def)



lemma wave_errors_frame:
  assumes "\<not> (\<exists>p \<in> set (fst (issue cfg ad batch (world c))). p_key p = k \<and> isl (p_outcome p))"
  shows "errors (published (run_batch cfg ad c batch)) k = errors (published c) k"
proof (cases rule: wave_cases [of cfg ad batch c])
  case catch_throws
  then show ?thesis by simp
next
  case (push_throws br be)
  then show ?thesis by simp
next
  case (publishes br be)
  have "fst ` set be
      = p_key ` {p \<in> set (settle_order (fst (issue cfg ad batch (world c)))). isl (p_outcome p)}
        - {''__proto__''}"
    using settle_all_keys(2) [OF publishes(1)] by simp
  with assms have k: "k \<notin> fst ` set be"
    by (auto simp: settle_order_set)
  from publishes(2) show ?thesis
    by (elim publish_Inr) (simp add: spread_errors_frame [OF k])
qed


text \<open>The keys and the articles of the accumulated results after a wave.\<close>

lemma wave_keys:
  shows "fst ` set (allCollectedResults (run_batch cfg ad c batch))
     \<subseteq> fst ` set (allCollectedResults c) \<union> {key \<in> set batch. section_enabled cfg key}"
  and "\<forall>p \<in> set (fst (issue cfg ad batch (world c))). p_outcome p \<noteq> Inl Nullish \<Longrightarrow>
       fst ` set (allCollectedResults (run_batch cfg ad c batch))
         = fst ` set (allCollectedResults c)
           \<union> {key \<in> set batch. section_enabled cfg key \<and> key \<noteq> ''__proto__''}"
proof -
  have keys: "p_key ` set (settle_order (fst (issue cfg ad batch (world c))))
      = {key \<in> set batch. section_enabled cfg key}"
    using issue_keys [of cfg ad batch "world c"]
    by (simp add: settle_order_set flip: set_map)
  have assigned: "fst ` set (object_assign (allCollectedResults c) br)
      = fst ` set (allCollectedResults c)
        \<union> {key \<in> set batch. section_enabled cfg key \<and> key \<noteq> ''__proto__''}"
    if st: "settle_all ([], []) (settle_order (fst (issue cfg ad batch (world c)))) = Inr (br, be)"
    for br be
  proof -
    have wf: "well_formed br"
      using settle_all_well_formed [OF st] by (simp add: well_formed_empty)
    have "fst ` set br = {key \<in> set batch. section_enabled cfg key} - {''__proto__''}"
      using settle_all_keys(1) [OF st] by (simp add: keys)
    then show ?thesis
      by (auto simp: keys_object_assign [OF wf])
  qed
  show "fst ` set (allCollectedResults (run_batch cfg ad c batch))
     \<subseteq> fst ` set (allCollectedResults c) \<union> {key \<in> set batch. section_enabled cfg key}"
  proof (cases rule: wave_cases [of cfg ad batch c])
    case catch_throws
    then show ?thesis by auto
  next
    case (push_throws br be)
    with assigned [OF push_throws(1)] show ?thesis by auto
  next
    case (publishes br be)
    with assigned [OF publishes(1)] show ?thesis by auto
  qed
  show "fst ` set (allCollectedResults (run_batch cfg ad c batch))
         = fst ` set (allCollectedResults c)
           \<union> {key \<in> set batch. section_enabled cfg key \<and> key \<noteq> ''__proto__''}"
    if "\<forall>p \<in> set (fst (issue cfg ad batch (world c))). p_outcome p \<noteq> Inl Nullish"
  proof (cases rule: wave_cases [of cfg ad batch c])
    case catch_throws
    with that show ?thesis by blast
  next
    case (push_throws br be)
    with assigned [OF push_throws(1)] show ?thesis by simp
  next
    case (publishes br be)
    with assigned [OF publishes(1)] show ?thesis by simp
  qed
qed

lemma wave_values:
  "set (values_flat (allCollectedResults (run_batch cfg ad c batch)))
     \<subseteq> set (values_flat (allCollectedResults c))
       \<union> (\<Union>p \<in> set (fst (issue cfg ad batch (world c))). set (contribution (p_outcome p)))"
proof -
  have assigned: "set (values_flat (object_assign (allCollectedResults c) br))
     \<subseteq> set (values_flat (allCollectedResults c))
       \<union> (\<Union>p \<in> set (fst (issue cfg ad batch (world c))). set (contribution (p_outcome p)))"
    if st: "settle_all ([], []) (settle_order (fst (issue cfg ad batch (world c)))) = Inr (br, be)"
    for br be
  proof
    fix a
    assume "a \<in> set (values_flat (object_assign (allCollectedResults c) br))"
    then obtain kv where kv: "kv \<in> set (object_assign (allCollectedResults c) br)"
      and a: "a \<in> set (snd kv)"
      by (auto simp: values_flat_set)
    from kv have "snd kv \<in> snd ` set (object_assign (allCollectedResults c) br)" by simp
    with values_object_assign [of "allCollectedResults c" br]
    have "snd kv \<in> snd ` set (allCollectedResults c) \<or> snd kv \<in> snd ` set br" by blast
    then show "a \<in> set (values_flat (allCollectedResults c))
       \<union> (\<Union>p \<in> set (fst (issue cfg ad batch (world c))). set (contribution (p_outcome p)))"
    proof
      assume "snd kv \<in> snd ` set (allCollectedResults c)"
      then obtain kv' where kv': "kv' \<in> set (allCollectedResults c)" and e: "snd kv = snd kv'"
        by auto
      from a e have "a \<in> set (snd kv')" by simp
      with kv' have "a \<in> set (values_flat (allCollectedResults c))"
        by (auto simp: values_flat_set)
      then show ?thesis by simp
    next
      assume "snd kv \<in> snd ` set br"
      with settle_all_values [OF st]
      have "snd kv \<in> (\<lambda>p. contribution (p_outcome p))
          ` set (settle_order (fst (issue cfg ad batch (world c))))"
        by auto
      with a show ?thesis by (auto simp: settle_order_set)
    qed
  qed
  show ?thesis
  proof (cases rule: wave_cases [of cfg ad batch c])
    case catch_throws
    then show ?thesis by auto
  next
    case (push_throws br be)
    with assigned [OF push_throws(1)] show ?thesis by simp
  next
    case (publishes br be)
    with assigned [OF publishes(1)] show ?thesis by simp
  qed
qed

text \<open>The snapshot that a wave publishes.\<close>

lemma wave_published:
  assumes "failure (run_batch cfg ad c batch) = None"
  shows "newsData (published (run_batch cfg ad c batch)) k =
     (if k \<in> fst ` set (allCollectedResults (run_batch cfg ad c batch))
         \<or> k \<in> classify ` set (values_flat (allCollectedResults (run_batch cfg ad c batch)))
      then Some (bucket_of (allCollectedResults (run_batch cfg ad c batch)) k)
      else newsData (published c) k)"
    and "breakingNews (published (run_batch cfg ad c batch))
       = breaking_of (values_flat (allCollectedResults (run_batch cfg ad c batch)))"
    and "loading (published (run_batch cfg ad c batch)) = loading (published c)"
    and "lastFetch (published (run_batch cfg ad c batch)) = lastFetch (published c)"
    and "settingsHash (published (run_batch cfg ad c batch)) = settingsHash (published c)"
proof -
  from assms obtain be where pub:
    "publish (allCollectedResults (run_batch cfg ad c batch)) be (published c)
        = Inr (published (run_batch cfg ad c batch))"
    by (cases rule: wave_cases [of cfg ad batch c]) simp_all
  show "newsData (published (run_batch cfg ad c batch)) k =
     (if k \<in> fst ` set (allCollectedResults (run_batch cfg ad c batch))
         \<or> k \<in> classify ` set (values_flat (allCollectedResults (run_batch cfg ad c batch)))
      then Some (bucket_of (allCollectedResults (run_batch cfg ad c batch)) k)
      else newsData (published c) k)"
    by (rule published_bucket [OF pub])
  from pub obtain r where s: "published (run_batch cfg ad c batch)
      = (published c)\<lparr>newsData := newsData (published c) ++ r,
           errors := foldl (\<lambda>e (k, message). e(k \<mapsto> message)) (errors (published c))
                       (own_entries be),
           breakingNews := breaking_of (values_flat (allCollectedResults (run_batch cfg ad c batch)))\<rparr>"
    by (rule publish_Inr)
  show "breakingNews (published (run_batch cfg ad c batch))
       = breaking_of (values_flat (allCollectedResults (run_batch cfg ad c batch)))"
    by (subst s) simp
  show "loading (published (run_batch cfg ad c batch)) = loading (published c)"
    by (subst s) simp
  show "lastFetch (published (run_batch cfg ad c batch)) = lastFetch (published c)"
    by (subst s) simp
  show "settingsHash (published (run_batch cfg ad c batch)) = settingsHash (published c)"
    by (subst s) simp
qed

lemma run_batch_observable:
  assumes "observable (published c)"
  shows "observable (published (run_batch cfg ad c batch))"
proof (cases rule: wave_cases [of cfg ad batch c])
  case catch_throws
  with assms show ?thesis by simp
next
  case (push_throws br be)
  with assms show ?thesis by simp
next
  case (publishes br be)
  from assms publishes(2) show ?thesis by (rule obs_publish)
qed

text \<open>When a wave throws and when it does not.\<close>

lemma wave_throws:
  "failure (run_batch cfg ad c batch) \<noteq> None \<longleftrightarrow>
     (\<exists>p \<in> set (fst (issue cfg ad batch (world c))). p_outcome p = Inl Nullish)
     \<or> (\<exists>a \<in> set (values_flat (allCollectedResults (run_batch cfg ad c batch))).
           classify a \<in> set inherited
           \<and> classify a \<notin> fst ` set (allCollectedResults (run_batch cfg ad c batch)))"
proof (cases rule: wave_cases [of cfg ad batch c])
  case catch_throws
  then show ?thesis by simp
next
  case (push_throws br be)
  from push_throws(2) have "\<exists>a \<in> set (values_flat (allCollectedResults (run_batch cfg ad c batch))).
           classify a \<in> set inherited
           \<and> classify a \<notin> fst ` set (allCollectedResults (run_batch cfg ad c batch))"
    by (simp add: push_throws(5) redistribute_Inl)
  with push_throws(3) show ?thesis by simp
next
  case (publishes br be)
  from publishes(1) have n: "\<not> (\<exists>p \<in> set (fst (issue cfg ad batch (world c))). p_outcome p = Inl Nullish)"
    using settle_all_Inl [of "([], [])" "settle_order (fst (issue cfg ad batch (world c)))" TypeError]
    by (simp add: settle_order_set)
  from publishes(2) have "redistribute (allCollectedResults (run_batch cfg ad c batch)) \<noteq> Inl TypeError"
    by (auto elim: publish_Inr)
  then have "\<not> (\<exists>a \<in> set (values_flat (allCollectedResults (run_batch cfg ad c batch))).
           classify a \<in> set inherited
           \<and> classify a \<notin> fst ` set (allCollectedResults (run_batch cfg ad c batch)))"
    by (simp add: redistribute_Inl)
  with n publishes(3) show ?thesis by simp
qed

section \<open>Traces\<close>









section \<open>The cycle\<close>


lemma run_batches_stop:
  assumes "failure (run_batch cfg ad c batch) \<noteq> None"
  shows "run_batches cfg ad c (batch # rest) = run_batch cfg ad c batch"
  using assms by (auto simp: Let_def split: option.splits)

lemma run_batches_continue:
  assumes "failure (run_batch cfg ad c batch) = None"
  shows "run_batches cfg ad c (batch # rest) = run_batches cfg ad (run_batch cfg ad c batch) rest"
  using assms by (simp add: Let_def)

declare run_batches.simps(2) [simp del]





lemma cycle_observable:
  assumes "observable (published c)"
  shows "observable (published (run_batches cfg ad c bs))"
  using assms
proof (induction bs arbitrary: c)
  case Nil
  then show ?case by simp
next
  case (Cons b bs)
  have o: "observable (published (run_batch cfg ad c b))"
    using Cons.prems by (rule run_batch_observable)
  show ?case
  proof (cases "failure (run_batch cfg ad c b) = None")
    case True
    with Cons.IH [OF o] show ?thesis by (simp add: run_batches_continue)
  next
    case False
    with o show ?thesis by (simp add: run_batches_stop)
  qed
qed










text \<open>The result of a refresh in terms of the loop over its batches.\<close>

lemma refreshNews_fields:
  "trace (refreshNews (Some cfg) ad now req (w, prev))
     = trace (run_batches cfg ad (cycle_start w prev) (batches_of (resolved req)))"
  "allCollectedResults (refreshNews (Some cfg) ad now req (w, prev))
     = allCollectedResults (run_batches cfg ad (cycle_start w prev) (batches_of (resolved req)))"
  "failure (refreshNews (Some cfg) ad now req (w, prev))
     = failure (run_batches cfg ad (cycle_start w prev) (batches_of (resolved req)))"
  "world (refreshNews (Some cfg) ad now req (w, prev))
     = world (run_batches cfg ad (cycle_start w prev) (batches_of (resolved req)))"
  "published (refreshNews (Some cfg) ad now req (w, prev))
     = (if failure (run_batches cfg ad (cycle_start w prev) (batches_of (resolved req))) = None
        then (published (run_batches cfg ad (cycle_start w prev) (batches_of (resolved req))))
               \<lparr>lastFetch := now, loading := False\<rparr>
        else (published (run_batches cfg ad (cycle_start w prev) (batches_of (resolved req))))
               \<lparr>loading := False\<rparr>)"
  by (simp_all add: refreshNews_def cycle_start_def Let_def split: option.splits)


text \<open>
  The snapshots that the program publishes are observable: after every wave, at the end
  of a refresh, and after a run of the settings effect.
\<close>

lemma refreshNews_observable:
  assumes "observable prev"
  shows "observable (published (refreshNews getSettings ad now req (w, prev)))"
proof (cases getSettings)
  case None
  have "observable (prev\<lparr>loading := False\<rparr>)"
    using assms by (rule obs_loading)
  with None show ?thesis by (simp add: refreshNews_def)
next
  case (Some cfg)
  let ?c = "run_batches cfg ad (cycle_start w prev) (batches_of (resolved req))"
  have "observable (published (cycle_start w prev))"
    using assms by (simp add: cycle_start_def obs_loading)
  then have o: "observable (published ?c)"
    by (rule cycle_observable)
  then have "observable ((published ?c)\<lparr>lastFetch := now\<rparr>)"
    by (rule obs_lastFetch)
  then have "observable ((published ?c)\<lparr>lastFetch := now\<rparr>\<lparr>loading := False\<rparr>)"
    by (rule obs_loading)
  moreover from o have "observable ((published ?c)\<lparr>loading := False\<rparr>)"
    by (rule obs_loading)
  ultimately show ?thesis
    by (simp add: Some refreshNews_fields(5))
qed

lemma settings_effect_observable:
  assumes "observable s" and "settings_effect getSettings s = Inr (actions, s')"
  shows "observable s'"
  using assms by (auto simp: settings_effect_def Let_def obs_settingsHash split: option.splits)


section \<open>Concrete cycles\<close>

lemma wave_acc:
  assumes "settle_all ([], []) (settle_order (fst (issue cfg ad batch (world c)))) = Inr (br, be)"
  shows "allCollectedResults (run_batch cfg ad c batch) = object_assign (allCollectedResults c) br"
proof (cases rule: wave_cases [of cfg ad batch c])
  case catch_throws
  then have "settle_all ([], []) (settle_order (fst (issue cfg ad batch (world c)))) = Inl TypeError"
    by (simp add: settle_all_Inl settle_order_set)
  with assms show ?thesis by simp
next
  case (push_throws br' be')
  with assms show ?thesis by simp
next
  case (publishes br' be')
  with assms show ?thesis by simp
qed

lemmas issue_eval =
  section_enabled_def count_or_10_def Let_def settle_order_def settle_def obj_set_def

lemmas object_eval =
  object_assign_def own_entries_def is_array_index_def obj_set_def values_flat_def


text \<open>The first wave of the adapter \<open>adapter0\<close> from a state with nothing accumulated.\<close>

lemma issue0_hi:
  "issue cfg0 adapter0 [''world'', ''india'', ''chennai'', ''trichy''] 0
    = ([\<lparr>p_key = ''world'', p_count = 10, p_sources = [(''bbc'', True), (''ndtv'', False)],
          p_outcome = Inr (Articles [w_low, w_hi1]), p_tick = 2\<rparr>,
        \<lparr>p_key = ''india'', p_count = 8, p_sources = [(''bbc'', True), (''ndtv'', False)],
          p_outcome = Inl (Thrown (Some ''timeout'')), p_tick = 1\<rparr>], 2)"
  by (simp add: cfg0_def adapter0_def issue_eval)

lemma settle0_hi:
  assumes "world c = 0"
  shows "settle_all ([], [])
      (settle_order (fst (issue cfg0 adapter0 [''world'', ''india'', ''chennai'', ''trichy''] (world c))))
    = Inr ([(''india'', []), (''world'', [w_low, w_hi1])], [(''india'', Some ''timeout'')])"
  by (simp add: assms issue0_hi issue_eval del: issue.simps)

lemma wave0_hi:
  assumes "world c = 0" and "allCollectedResults c = []"
  shows "allCollectedResults (run_batch cfg0 adapter0 c [''world'', ''india'', ''chennai'', ''trichy''])
      = [(''india'', []), (''world'', [w_low, w_hi1])]"
    and "failure (run_batch cfg0 adapter0 c [''world'', ''india'', ''chennai'', ''trichy'']) = None"
    and "world (run_batch cfg0 adapter0 c [''world'', ''india'', ''chennai'', ''trichy'']) = 2"
    and "trace (run_batch cfg0 adapter0 c [''world'', ''india'', ''chennai'', ''trichy''])
      = trace c @
        [Issued ''world'' 10 [(''bbc'', True), (''ndtv'', False)],
         Issued ''india'' 8 [(''bbc'', True), (''ndtv'', False)],
         Settled ''india'' (Inl (Thrown (Some ''timeout''))),
         Settled ''world'' (Inr (Articles [w_low, w_hi1])),
         Published]"
proof -
  let ?c1 = "run_batch cfg0 adapter0 c [''world'', ''india'', ''chennai'', ''trichy'']"
  show acc: "allCollectedResults ?c1 = [(''india'', []), (''world'', [w_low, w_hi1])]"
    by (simp add: wave_acc [OF settle0_hi [OF assms(1)]] assms(2) object_eval)
  show ok: "failure ?c1 = None"
    using wave_throws [of cfg0 adapter0 c "[''world'', ''india'', ''chennai'', ''trichy'']"]
    by (simp add: acc assms(1) issue0_hi values_flat_set classify_def w_low_def w_hi1_def
        inherited_def del: issue.simps)
  show "world ?c1 = 2"
    by (simp add: wave_world assms(1) issue0_hi del: issue.simps)
  show "trace ?c1
      = trace c @
        [Issued ''world'' 10 [(''bbc'', True), (''ndtv'', False)],
         Issued ''india'' 8 [(''bbc'', True), (''ndtv'', False)],
         Settled ''india'' (Inl (Thrown (Some ''timeout''))),
         Settled ''world'' (Inr (Articles [w_low, w_hi1])),
         Published]"
    by (simp add: wave_trace ok assms(1) issue0_hi settle_order_def del: issue.simps)
qed

section \<open>Sort order of the buckets\<close>

lemma bucket_of_sorted:
  assumes "Suc i < length (bucket_of acc k)"
  shows "or0 (impactScore (bucket_of acc k ! Suc i)) \<le> or0 (impactScore (bucket_of acc k ! i))"
proof -
  let ?g = "\<lambda>a. - or0 (impactScore a)"
  let ?b = "bucket_of acc k"
  have "sorted (map ?g ?b)"
    unfolding bucket_of_sort_key by (rule sorted_sort_key)
  then have "map ?g ?b ! i \<le> map ?g ?b ! Suc i"
    using assms by (simp add: sorted_iff_nth_Suc del: nth_map)
  with assms show ?thesis by simp
qed

lemma bucket_of_stable:
  "filter (\<lambda>a. or0 (impactScore a) = v) (bucket_of acc k)
     = filter (\<lambda>a. or0 (impactScore a) = v \<and> classify a = k) (values_flat acc)"
proof -
  let ?g = "\<lambda>a. - or0 (impactScore a)"
  have eq: "(\<lambda>a. or0 (impactScore a) = v) = (\<lambda>a. ?g a = - v)" by auto
  have "filter (\<lambda>a. or0 (impactScore a) = v) (bucket_of acc k)
      = filter (\<lambda>a. or0 (impactScore a) = v) (filter (\<lambda>a. classify a = k) (values_flat acc))"
    unfolding bucket_of_sort_key eq by (rule sort_key_stable)
  then show ?thesis by (simp add: conj_commute)
qed

lemma tie_wave:
  "allCollectedResults (run_batch cfg0 adapter_tie start0 [''world''])
     = [(''world'', [w_low, w_hi1, w_hi2])]"
  "failure (run_batch cfg0 adapter_tie start0 [''world'']) = None"
proof -
  have i: "issue cfg0 adapter_tie [''world''] 0
      = ([\<lparr>p_key = ''world'', p_count = 10, p_sources = [(''bbc'', True), (''ndtv'', False)],
            p_outcome = Inr (Articles [w_low, w_hi1, w_hi2]), p_tick = 0\<rparr>], 1)"
    by (simp add: cfg0_def adapter_tie_def issue_eval)
  have w: "world start0 = 0" "allCollectedResults start0 = []"
    by (simp_all add: start0_def cycle_start_def)
  have s: "settle_all ([], []) (settle_order (fst (issue cfg0 adapter_tie [''world''] (world start0))))
      = Inr ([(''world'', [w_low, w_hi1, w_hi2])], [])"
    by (simp add: w i issue_eval del: issue.simps)
  show acc: "allCollectedResults (run_batch cfg0 adapter_tie start0 [''world''])
      = [(''world'', [w_low, w_hi1, w_hi2])]"
    by (simp add: wave_acc [OF s] w object_eval)
  show "failure (run_batch cfg0 adapter_tie start0 [''world'']) = None"
    using wave_throws [of cfg0 adapter_tie start0 "[''world'']"]
    by (simp add: acc w i values_flat_set classify_def w_low_def w_hi1_def w_hi2_def
        inherited_def del: issue.simps)
qed

text \<open>
  Claim C2.  In every observable snapshot, every published bucket is in non-increasing
  order of impact score (a missing score counting as 0).  A wave that publishes gives
  every key that is a fetched section or the section of an accumulated article a bucket
  in which, for every score, the articles of that score are the accumulated articles of
  that score and section in the order in which the accumulated results hold them: the
  sort is stable.
\<close>

theorem C2_sort_invariant:
  "(observable s \<longrightarrow> newsData s k = Some bucket \<longrightarrow>
      (\<forall>i. Suc i < length bucket \<longrightarrow>
           or0 (impactScore (bucket ! i)) \<ge> or0 (impactScore (bucket ! Suc i))))
   \<and> (failure (run_batch cfg ad c batch) = None \<longrightarrow>
        k \<in> fst ` set (allCollectedResults (run_batch cfg ad c batch))
              \<union> classify ` set (values_flat (allCollectedResults (run_batch cfg ad c batch))) \<longrightarrow>
        (\<forall>v. map_option (filter (\<lambda>a. or0 (impactScore a) = v))
                (newsData (published (run_batch cfg ad c batch)) k)
              = Some (filter (\<lambda>a. or0 (impactScore a) = v \<and> classify a = k)
                        (values_flat (allCollectedResults (run_batch cfg ad c batch))))))"
proof -
  have sorted: "\<forall>i. Suc i < length bucket \<longrightarrow>
      or0 (impactScore (bucket ! i)) \<ge> or0 (impactScore (bucket ! Suc i))"
    if obs: "observable s" and nd: "newsData s k = Some bucket"
    using obs _ nd
    by (rule observable_buckets [where P = "\<lambda>k b. \<forall>i. Suc i < length b \<longrightarrow>
          or0 (impactScore (b ! i)) \<ge> or0 (impactScore (b ! Suc i))"])
       (simp add: bucket_of_sorted)
  have stable: "map_option (filter (\<lambda>a. or0 (impactScore a) = v))
                (newsData (published (run_batch cfg ad c batch)) k)
              = Some (filter (\<lambda>a. or0 (impactScore a) = v \<and> classify a = k)
                        (values_flat (allCollectedResults (run_batch cfg ad c batch))))"
    if ok: "failure (run_batch cfg ad c batch) = None"
      and k: "k \<in> fst ` set (allCollectedResults (run_batch cfg ad c batch))
              \<union> classify ` set (values_flat (allCollectedResults (run_batch cfg ad c batch)))"
    for v
  proof -
    from k have "newsData (published (run_batch cfg ad c batch)) k
        = Some (bucket_of (allCollectedResults (run_batch cfg ad c batch)) k)"
      by (simp only: wave_published(1) [OF ok] Un_iff if_True)
    then show ?thesis by (simp add: bucket_of_stable)
  qed
  from sorted stable show ?thesis by blast
qed

theorem C2_sort_invariant_witness:
  "observable (published (run_batch cfg0 adapter_tie start0 [''world'']))
   \<and> newsData (published (run_batch cfg0 adapter_tie start0 [''world''])) ''world''
       = Some [w_hi1, w_hi2, w_low]
   \<and> or0 (impactScore ([w_hi1, w_hi2, w_low] ! 1)) \<ge> or0 (impactScore ([w_hi1, w_hi2, w_low] ! Suc 1))
   \<and> failure (run_batch cfg0 adapter_tie start0 [''world'']) = None
   \<and> values_flat (allCollectedResults (run_batch cfg0 adapter_tie start0 [''world'']))
       = [w_low, w_hi1, w_hi2]
   \<and> map_option (filter (\<lambda>a. or0 (impactScore a) = 9))
        (newsData (published (run_batch cfg0 adapter_tie start0 [''world''])) ''world'')
       = Some [w_hi1, w_hi2]"
proof -
  let ?c = "run_batch cfg0 adapter_tie start0 [''world'']"
  have "observable (published start0)"
    by (simp add: start0_def cycle_start_def obs_init obs_loading)
  then have o: "observable (published ?c)"
    by (rule run_batch_observable)
  have v: "values_flat (allCollectedResults ?c) = [w_low, w_hi1, w_hi2]"
    by (simp add: tie_wave(1) object_eval)
  have "bucket_of [(''world'', [w_low, w_hi1, w_hi2])] ''world'' = [w_hi1, w_hi2, w_low]"
    by (simp add: bucket_of_def object_eval classify_def w_low_def w_hi1_def w_hi2_def
        array_sort_def impact_cmp_def or0_def)
  then have n: "newsData (published ?c) ''world'' = Some [w_hi1, w_hi2, w_low]"
    by (simp add: wave_published(1) [OF tie_wave(2)] tie_wave(1))
  have k: "''world'' \<in> fst ` set (allCollectedResults ?c)
      \<union> classify ` set (values_flat (allCollectedResults ?c))"
    by (simp add: tie_wave(1))
  note c2 = C2_sort_invariant [of "published ?c" "''world''" "[w_hi1, w_hi2, w_low]"
      cfg0 adapter_tie start0 "[''world'']"]
  from c2 o n have "Suc 1 < length [w_hi1, w_hi2, w_low] \<longrightarrow>
      or0 (impactScore ([w_hi1, w_hi2, w_low] ! 1))
        \<ge> or0 (impactScore ([w_hi1, w_hi2, w_low] ! Suc 1))"
    by blast
  then have ge: "or0 (impactScore ([w_hi1, w_hi2, w_low] ! 1))
        \<ge> or0 (impactScore ([w_hi1, w_hi2, w_low] ! Suc 1))"
    by simp
  from c2 tie_wave(2) k
  have "map_option (filter (\<lambda>a. or0 (impactScore a) = 9)) (newsData (published ?c) ''world'')
      = Some (filter (\<lambda>a. or0 (impactScore a) = 9 \<and> classify a = ''world'')
                (values_flat (allCollectedResults ?c)))"
    by blast
  then have st: "map_option (filter (\<lambda>a. or0 (impactScore a) = 9))
      (newsData (published ?c) ''world'') = Some [w_hi1, w_hi2]"
    by (simp add: v classify_def w_low_def w_hi1_def w_hi2_def or0_def)
  from o n ge tie_wave(2) v st show ?thesis by blast
qed

section \<open>Missing configuration\<close>

text \<open>
  Claim C9.  When the configuration store returns nothing, the refresh ends without a
  call of the source adapter (its trace is empty and the outside world is untouched) and
  the published sections, breaking list, errors and completion time are those of before;
  the refresh that follows runs exactly as it would have run without the aborted one.
\<close>

theorem C9_configuration_unavailable:
  "trace (refreshNews None ad now req (w, prev)) = []
   \<and> world (refreshNews None ad now req (w, prev)) = w
   \<and> newsData (published (refreshNews None ad now req (w, prev))) = newsData prev
   \<and> breakingNews (published (refreshNews None ad now req (w, prev))) = breakingNews prev
   \<and> errors (published (refreshNews None ad now req (w, prev))) = errors prev
   \<and> lastFetch (published (refreshNews None ad now req (w, prev))) = lastFetch prev
   \<and> refreshNews getSettings2 ad2 now2 req2
        (world (refreshNews None ad now req (w, prev)),
         published (refreshNews None ad now req (w, prev)))
      = refreshNews getSettings2 ad2 now2 req2 (w, prev)"
  by (simp add: refreshNews_def)

section \<open>Frame of a publish\<close>

text \<open>
  Claim C10.  A wave's publish merges into the previous snapshot: a key that is neither a
  section fetched so far in the cycle nor the classified section of an article fetched so
  far keeps its published bucket, and a key for which no fetch of the wave failed keeps its
  recorded error.  The sections fetched so far are among those of before the wave and the
  enabled sections of its batch, and they are all of these (but "__proto__", which is
  never stored) unless a fetch of the wave is rejected with \<^verbatim>\<open>null\<close> or
  \<^verbatim>\<open>undefined\<close>; the articles fetched so far are among those of before the wave and
  those that the fetches of the wave contribute.
\<close>

theorem C10_publish_frame:
  "(k \<notin> fst ` set (allCollectedResults (run_batch cfg ad c batch))
      \<and> k \<notin> classify ` set (values_flat (allCollectedResults (run_batch cfg ad c batch)))
      \<longrightarrow> newsData (published (run_batch cfg ad c batch)) k = newsData (published c) k)
   \<and> (\<not> (\<exists>p \<in> set (fst (issue cfg ad batch (world c))). p_key p = k \<and> isl (p_outcome p))
      \<longrightarrow> errors (published (run_batch cfg ad c batch)) k = errors (published c) k)
   \<and> fst ` set (allCollectedResults (run_batch cfg ad c batch))
       \<subseteq> fst ` set (allCollectedResults c) \<union> {key \<in> set batch. section_enabled cfg key}
   \<and> (Inl Nullish \<notin> p_outcome ` set (fst (issue cfg ad batch (world c)))
      \<longrightarrow> fst ` set (allCollectedResults (run_batch cfg ad c batch))
          = fst ` set (allCollectedResults c)
            \<union> {key \<in> set batch. section_enabled cfg key \<and> key \<noteq> ''__proto__''})
   \<and> set (values_flat (allCollectedResults (run_batch cfg ad c batch)))
       \<subseteq> set (values_flat (allCollectedResults c))
         \<union> (\<Union>p \<in> set (fst (issue cfg ad batch (world c))). set (contribution (p_outcome p)))"
proof -
  let ?c1 = "run_batch cfg ad c batch"
  have nd: "newsData (published ?c1) k = newsData (published c) k"
    if "k \<notin> fst ` set (allCollectedResults ?c1)"
      and "k \<notin> classify ` set (values_flat (allCollectedResults ?c1))"
  proof (cases "failure ?c1 = None")
    case True
    from that show ?thesis by (simp add: wave_published(1) [OF True])
  next
    case False
    then show ?thesis by (simp add: wave_unpublished)
  qed
  have er: "errors (published ?c1) k = errors (published c) k"
    if "\<not> (\<exists>p \<in> set (fst (issue cfg ad batch (world c))). p_key p = k \<and> isl (p_outcome p))"
    using that by (rule wave_errors_frame)
  have keys: "fst ` set (allCollectedResults ?c1)
          = fst ` set (allCollectedResults c)
            \<union> {key \<in> set batch. section_enabled cfg key \<and> key \<noteq> ''__proto__''}"
    if "Inl Nullish \<notin> p_outcome ` set (fst (issue cfg ad batch (world c)))"
  proof (rule wave_keys(2))
    from that show "\<forall>p \<in> set (fst (issue cfg ad batch (world c))). p_outcome p \<noteq> Inl Nullish"
      by (metis imageI)
  qed
  from nd er keys wave_keys(1) [of cfg ad c batch] wave_values [of cfg ad c batch]
  show ?thesis by blast
qed

lemma start1_fields: "world start1 = 0" "allCollectedResults start1 = []"
  "published start1 = prev0\<lparr>loading := True\<rparr>" "trace start1 = []"
  by (simp_all add: start1_def cycle_start_def)

theorem C10_publish_frame_witness:
  "''technology'' \<notin> fst ` set (allCollectedResults
        (run_batch cfg0 adapter0 start1 [''world'', ''india'', ''chennai'', ''trichy'']))
   \<and> ''technology'' \<notin> classify ` set (values_flat (allCollectedResults
        (run_batch cfg0 adapter0 start1 [''world'', ''india'', ''chennai'', ''trichy''])))
   \<and> newsData (published (run_batch cfg0 adapter0 start1 [''world'', ''india'', ''chennai'', ''trichy'']))
        ''technology'' = Some [tech]
   \<and> \<not> (\<exists>p \<in> set (fst (issue cfg0 adapter0 [''world'', ''india'', ''chennai'', ''trichy'']
                              (world start1))).
            p_key p = ''local'' \<and> isl (p_outcome p))
   \<and> errors (published (run_batch cfg0 adapter0 start1 [''world'', ''india'', ''chennai'', ''trichy'']))
        ''local'' = Some (Some ''offline'')
   \<and> Inl Nullish \<notin> p_outcome ` set (fst (issue cfg0 adapter0
        [''world'', ''india'', ''chennai'', ''trichy''] (world start1)))
   \<and> fst ` set (allCollectedResults
        (run_batch cfg0 adapter0 start1 [''world'', ''india'', ''chennai'', ''trichy'']))
       = {''world'', ''india''}"
proof -
  let ?b = "[''world'', ''india'', ''chennai'', ''trichy'']"
  let ?c1 = "run_batch cfg0 adapter0 start1 ?b"
  note acc = wave0_hi(1) [OF start1_fields(1,2)]
  have a: "''technology'' \<notin> fst ` set (allCollectedResults ?c1)"
    by (simp add: acc)
  have b: "''technology'' \<notin> classify ` set (values_flat (allCollectedResults ?c1))"
    by (simp add: acc values_flat_set classify_def w_low_def w_hi1_def)
  have n: "\<not> (\<exists>p \<in> set (fst (issue cfg0 adapter0 ?b (world start1))).
      p_key p = ''local'' \<and> isl (p_outcome p))"
    by (simp add: start1_fields(1) issue0_hi del: issue.simps)
  have nn: "Inl Nullish \<notin> p_outcome ` set (fst (issue cfg0 adapter0 ?b (world start1)))"
    by (simp add: start1_fields(1) issue0_hi del: issue.simps)
  note c10 = C10_publish_frame [of _ cfg0 adapter0 start1 ?b]
  from c10 [of "''technology''"] a b
  have "newsData (published ?c1) ''technology'' = newsData (published start1) ''technology''"
    by blast
  then have c: "newsData (published ?c1) ''technology'' = Some [tech]"
    by (simp add: start1_fields(3) prev0_def)
  from c10 [of "''local''"] n
  have "errors (published ?c1) ''local'' = errors (published start1) ''local''"
    by blast
  then have e: "errors (published ?c1) ''local'' = Some (Some ''offline'')"
    by (simp add: start1_fields(3) prev0_def)
  from c10 [of "''local''"] nn
  have "fst ` set (allCollectedResults ?c1)
      = fst ` set (allCollectedResults start1)
        \<union> {key \<in> set ?b. section_enabled cfg0 key \<and> key \<noteq> ''__proto__''}"
    by blast
  moreover have "fst ` set (allCollectedResults start1)
        \<union> {key \<in> set ?b. section_enabled cfg0 key \<and> key \<noteq> ''__proto__''}
      = {''world'', ''india''}"
    by (auto simp: start1_fields(2) cfg0_def section_enabled_def split: if_splits)
  ultimately have k: "fst ` set (allCollectedResults ?c1) = {''world'', ''india''}"
    by (rule trans)
  from a b c n e nn k show ?thesis by blast
qed

section \<open>Target count of a fetch\<close>

lemma zero_cycle:
  "trace (run_batch cfg_zero adapter0 start0 [''world''])
     = [Issued ''world'' 15 [(''bbc'', True)],
        Settled ''world'' (Inr (Articles [w_low, w_hi1])),
        Published]"
  "failure (run_batch cfg_zero adapter0 start0 [''world'']) = None"
proof -
  have i: "issue cfg_zero adapter0 [''world''] 0
      = ([\<lparr>p_key = ''world'', p_count = 15, p_sources = [(''bbc'', True)],
            p_outcome = Inr (Articles [w_low, w_hi1]), p_tick = 2\<rparr>], 1)"
    by (simp add: cfg_zero_def adapter0_def issue_eval)
  have w: "world start0 = 0" "allCollectedResults start0 = []" "trace start0 = []"
    by (simp_all add: start0_def cycle_start_def)
  have s: "settle_all ([], []) (settle_order (fst (issue cfg_zero adapter0 [''world''] (world start0))))
      = Inr ([(''world'', [w_low, w_hi1])], [])"
    by (simp add: w i issue_eval del: issue.simps)
  have acc: "allCollectedResults (run_batch cfg_zero adapter0 start0 [''world''])
      = [(''world'', [w_low, w_hi1])]"
    by (simp add: wave_acc [OF s] w object_eval)
  show ok: "failure (run_batch cfg_zero adapter0 start0 [''world'']) = None"
    using wave_throws [of cfg_zero adapter0 start0 "[''world'']"]
    by (simp add: acc w i values_flat_set classify_def w_low_def w_hi1_def
        inherited_def del: issue.simps)
  show "trace (run_batch cfg_zero adapter0 start0 [''world''])
     = [Issued ''world'' 15 [(''bbc'', True)],
        Settled ''world'' (Inr (Articles [w_low, w_hi1])),
        Published]"
    by (simp add: wave_trace ok w i settle_order_def del: issue.simps)
qed

text \<open>
  Claim C8.  The code at a configuration whose enabled section "world" has the configured
  count 0: the adapter is called once for "world", with the target count 15.
\<close>

theorem C8_zero_count_target:
  "sections cfg_zero ''world'' = Some \<lparr>enabled = True, count = Some 0\<rparr>
   \<and> trace (refreshNews (Some cfg_zero) adapter0 77 (Some [''world'']) (0, initial_snapshot))
       = [Issued ''world'' 15 [(''bbc'', True)],
          Settled ''world'' (Inr (Articles [w_low, w_hi1])),
          Published]"
proof -
  have b: "batches_of (resolved (Some [''world''])) = [[''world'']]"
    by (simp add: resolved_def batches_of_def mainPage_def)
  have "run_batches cfg_zero adapter0 start0 [[''world'']]
      = run_batch cfg_zero adapter0 start0 [''world'']"
    by (simp add: run_batches_continue [OF zero_cycle(2)])
  then have "trace (refreshNews (Some cfg_zero) adapter0 77 (Some [''world'']) (0, initial_snapshot))
       = [Issued ''world'' 15 [(''bbc'', True)],
          Settled ''world'' (Inr (Articles [w_low, w_hi1])),
          Published]"
    by (simp add: refreshNews_fields(1) b zero_cycle(1) flip: start0_def)
  moreover have "sections cfg_zero ''world'' = Some \<lparr>enabled = True, count = Some 0\<rparr>"
    by (simp add: cfg_zero_def)
  ultimately show ?thesis by simp
qed

section \<open>Cycles of the concrete adapters\<close>












section \<open>Failures of the adapter\<close>







section \<open>Breaking shortlist\<close>





section \<open>Priority batches\<close>




section \<open>What the change monitor triggers\<close>






section \<open>Value of the proximity score\<close>

lemma str_includes_sublist: "str_includes hay pat \<longleftrightarrow> sublist pat hay"
  by (induction hay) (simp_all add: sublist_Cons_right)

lemma matching_boosts_set:
  "matching_boosts toLowerCase LOCATIONS body
     = set (map snd (filter (\<lambda>(name, boost). str_includes (toLowerCase body) (toLowerCase name))
                       LOCATIONS))"
  by (auto simp: matching_boosts_def str_includes_sublist image_iff)

lemma scan_locations:
  "foldl (\<lambda>maxBoost (locationName, boost).
            if str_includes hay (toLowerCase locationName)
            then (if boost > maxBoost then boost else maxBoost)
            else maxBoost) (m :: real) LOCATIONS
     = fold max (map snd (filter (\<lambda>(name, boost). str_includes hay (toLowerCase name)) LOCATIONS)) m"
proof (induction LOCATIONS arbitrary: m)
  case Nil
  then show ?case by simp
next
  case (Cons e LOCATIONS)
  obtain name boost where e: "e = (name, boost)" by (cases e)
  have step: "(if boost > m then boost else m) = max boost m"
    by (simp add: max_def)
  show ?case by (simp add: e Cons.IH step)
qed

lemma proximity_enabled:
  assumes "enableProximityScoring cfg \<noteq> Some False"
  shows "calculateProximityScore (Some cfg) toLowerCase space LOCATIONS ttl description
       = Inr (Max (insert 1 (matching_boosts toLowerCase LOCATIONS (ttl @ [space] @ description))))"
proof -
  let ?ms = "map snd (filter (\<lambda>(name, boost).
      str_includes (toLowerCase (ttl @ [space] @ description)) (toLowerCase name)) LOCATIONS)"
  have "Max (insert 1 (matching_boosts toLowerCase LOCATIONS (ttl @ [space] @ description)))
      = Max (set (1 # ?ms))"
    by (simp only: matching_boosts_set list.set)
  also have "\<dots> = fold max ?ms 1"
    by (rule Max.set_eq_fold)
  finally show ?thesis
    using assms by (simp add: calculateProximityScore_def Let_def scan_locations)
qed

lemma matching_boosts_finite: "finite (matching_boosts toLowerCase LOCATIONS body)"
  by (simp only: matching_boosts_set) (rule finite_set)

lemma matching_boosts_range:
  assumes "boosts_in_range LOCATIONS" and "b \<in> matching_boosts toLowerCase LOCATIONS body"
  shows "1 \<le> b"
  using assms by (auto simp: boosts_in_range_def matching_boosts_def)

text \<open>
  Claim C7, amended.  With proximity scoring disabled the result is exactly 1.0.
  Otherwise the text matched is the title, one space and the description, lower-cased;
  the result is 1.0 when no gazetteer entry has its lower-cased name as a contiguous part
  of it and, for a gazetteer with no boost below 1.0, the maximum boost of the matching
  entries when there are some (for any gazetteer: the maximum of 1.0 and the matching
  boosts).  The result is always at least 1.0, and it is a function of the configuration,
  the gazetteer, the title and the description.
\<close>

theorem C7_proximity_score:
  "(enableProximityScoring cfg = Some False \<longrightarrow>
      calculateProximityScore (Some cfg) toLowerCase space LOCATIONS ttl description = Inr 1)
   \<and> (enableProximityScoring cfg \<noteq> Some False \<longrightarrow>
        calculateProximityScore (Some cfg) toLowerCase space LOCATIONS ttl description
          = Inr (Max (insert 1
              (matching_boosts toLowerCase LOCATIONS (ttl @ [space] @ description))))
        \<and> (matching_boosts toLowerCase LOCATIONS (ttl @ [space] @ description) = {} \<longrightarrow>
             calculateProximityScore (Some cfg) toLowerCase space LOCATIONS ttl description
               = Inr 1)
        \<and> (boosts_in_range LOCATIONS
             \<and> matching_boosts toLowerCase LOCATIONS (ttl @ [space] @ description) \<noteq> {} \<longrightarrow>
             calculateProximityScore (Some cfg) toLowerCase space LOCATIONS ttl description
               = Inr (Max (matching_boosts toLowerCase LOCATIONS (ttl @ [space] @ description)))))
   \<and> (\<exists>r. calculateProximityScore (Some cfg) toLowerCase space LOCATIONS ttl description = Inr r
          \<and> 1 \<le> r)"
proof -
  let ?M = "matching_boosts toLowerCase LOCATIONS (ttl @ [space] @ description)"
  let ?r = "calculateProximityScore (Some cfg) toLowerCase space LOCATIONS ttl description"
  have fin: "finite ?M" by (rule matching_boosts_finite)
  have off: "?r = Inr 1" if "enableProximityScoring cfg = Some False"
    using that by (simp add: calculateProximityScore_def)
  have on: "?r = Inr (Max (insert 1 ?M))" if "enableProximityScoring cfg \<noteq> Some False"
    using that by (rule proximity_enabled)
  have none: "?r = Inr 1" if "enableProximityScoring cfg \<noteq> Some False" "?M = {}"
    using on [OF that(1)] that(2) by simp
  have some: "?r = Inr (Max ?M)"
    if "enableProximityScoring cfg \<noteq> Some False" "boosts_in_range LOCATIONS \<and> ?M \<noteq> {}"
  proof -
    from that(2) obtain b where b: "b \<in> ?M" by blast
    with that(2) have "1 \<le> b" by (auto intro: matching_boosts_range)
    with b fin have "1 \<le> Max ?M" by (meson Max_ge order_trans)
    then have "Max (insert 1 ?M) = Max ?M"
      using fin that(2) by (simp add: max_def)
    with on [OF that(1)] show ?thesis by simp
  qed
  have ge: "\<exists>r. ?r = Inr r \<and> 1 \<le> r"
  proof (cases "enableProximityScoring cfg = Some False")
    case True
    then show ?thesis by (simp add: off)
  next
    case False
    have "1 \<le> Max (insert 1 ?M)" using fin by simp
    with on [OF False] show ?thesis by simp
  qed
  from off on none some ge show ?thesis by blast
qed

lemma lower_examples:
  "ascii_lower ''Mus cat'' = ''mus cat''"
  "ascii_lower ''Muscat'' = ''muscat''"
  "ascii_lower ''muscat'' = ''muscat''"
  "ascii_lower ''Flooding reported near Muscat '' = ''flooding reported near muscat ''"
  "ascii_lower ''Rain in Paris '' = ''rain in paris ''"
  by code_simp+

text \<open>
  The claim as first stated fails where title and description only together spell a
  location: the code puts a space between them.
\<close>

theorem C7_concatenation_counterexample:
  "calculateProximityScore (Some cfg0) ascii_lower (CHR '' '') gazetteer0 ''Mus'' ''cat'' = Inr 1
   \<and> proximityBoost_spec cfg0 ascii_lower gazetteer0 ''Mus'' ''cat'' = 1.8"
proof -
  have code: "calculateProximityScore (Some cfg0) ascii_lower (CHR '' '') gazetteer0 ''Mus'' ''cat''
      = Inr 1"
    by (simp add: calculateProximityScore_def cfg0_def gazetteer0_def lower_examples)
  have "matching_boosts ascii_lower gazetteer0 (''Mus'' @ ''cat'') = {1.8}"
    by (simp add: matching_boosts_set gazetteer0_def lower_examples)
  then have spec: "proximityBoost_spec cfg0 ascii_lower gazetteer0 ''Mus'' ''cat'' = 1.8"
    by (simp add: proximityBoost_spec_def cfg0_def)
  from code spec show ?thesis by blast
qed

theorem C7_proximity_score_witness:
  "enableProximityScoring cfg_no_proximity = Some False
   \<and> calculateProximityScore (Some cfg_no_proximity) ascii_lower (CHR '' '') gazetteer0
        ''Flooding reported near Muscat'' [] = Inr 1
   \<and> enableProximityScoring cfg0 \<noteq> Some False
   \<and> boosts_in_range gazetteer0
   \<and> matching_boosts ascii_lower gazetteer0
        (''Flooding reported near Muscat'' @ [CHR '' ''] @ []) = {1.8}
   \<and> calculateProximityScore (Some cfg0) ascii_lower (CHR '' '') gazetteer0
        ''Flooding reported near Muscat'' [] = Inr 1.8
   \<and> matching_boosts ascii_lower gazetteer0 (''Rain in Paris'' @ [CHR '' ''] @ []) = {}
   \<and> calculateProximityScore (Some cfg0) ascii_lower (CHR '' '') gazetteer0
        ''Rain in Paris'' [] = Inr 1"
proof -
  have off: "enableProximityScoring cfg_no_proximity = Some False"
    by (simp add: cfg_no_proximity_def)
  have on: "enableProximityScoring cfg0 \<noteq> Some False"
    by (simp add: cfg0_def)
  have rg: "boosts_in_range gazetteer0"
    by (simp add: boosts_in_range_def gazetteer0_def)
  have m1: "matching_boosts ascii_lower gazetteer0
      (''Flooding reported near Muscat'' @ [CHR '' ''] @ []) = {1.8}"
    by (simp add: matching_boosts_set gazetteer0_def lower_examples)
  have m2: "matching_boosts ascii_lower gazetteer0 (''Rain in Paris'' @ [CHR '' ''] @ []) = {}"
    by (simp add: matching_boosts_set gazetteer0_def lower_examples)
  from C7_proximity_score [of cfg_no_proximity ascii_lower "CHR '' ''" gazetteer0
      "''Flooding reported near Muscat''" "[]"] off
  have r0: "calculateProximityScore (Some cfg_no_proximity) ascii_lower (CHR '' '') gazetteer0
      ''Flooding reported near Muscat'' [] = Inr 1"
    by blast
  have "matching_boosts ascii_lower gazetteer0
      (''Flooding reported near Muscat'' @ [CHR '' ''] @ []) \<noteq> {}"
    by (simp only: m1) simp
  with C7_proximity_score [of cfg0 ascii_lower "CHR '' ''" gazetteer0
      "''Flooding reported near Muscat''" "[]"] on rg
  have "calculateProximityScore (Some cfg0) ascii_lower (CHR '' '') gazetteer0
      ''Flooding reported near Muscat'' []
      = Inr (Max (matching_boosts ascii_lower gazetteer0
          (''Flooding reported near Muscat'' @ [CHR '' ''] @ [])))"
    by blast
  then have r1: "calculateProximityScore (Some cfg0) ascii_lower (CHR '' '') gazetteer0
      ''Flooding reported near Muscat'' [] = Inr 1.8"
    by (simp only: m1) simp
  from C7_proximity_score [of cfg0 ascii_lower "CHR '' ''" gazetteer0 "''Rain in Paris''" "[]"]
    on m2
  have r2: "calculateProximityScore (Some cfg0) ascii_lower (CHR '' '') gazetteer0
      ''Rain in Paris'' [] = Inr 1"
    by blast
  from off r0 on rg m1 r1 m2 r2 show ?thesis by blast
qed

end
